theory Spec2Isabelle
  imports Main
begin

section \<open>Deferred next-tick dispatch (shell/common/api/electron\_bindings.cc)\<close>

text \<open>
  \<^verbatim>\<open>ElectronBindings\<close> owns the list \<^verbatim>\<open>pending_next_ticks_\<close>
  (a \<^verbatim>\<open>std::list<node::Environment*>\<close>) and the libuv handle
  \<^verbatim>\<open>call_next_tick_async_\<close>. The model keeps the list as it is and replaces the
  two effects that leave the object by logs: \<open>async_sends\<close> counts the calls of
  \<^verbatim>\<open>uv_async_send\<close>, and \<open>scopes\<close> lists, in order, the environments for which
  \<^verbatim>\<open>OnCallNextTick\<close> opened a \<^verbatim>\<open>node::InternalCallbackScope\<close>.
  The type \<open>'e\<close> stands for \<^verbatim>\<open>node::Environment*\<close>; only equality of pointers is used.
\<close>

record 'e bindings =
  pending_next_ticks :: "'e list"
  async_sends :: nat
  scopes :: "'e list"

text \<open>The constructor leaves \<^verbatim>\<open>pending_next_ticks_\<close> empty.\<close>

definition initial :: "'e bindings" where
  "initial = \<lparr>pending_next_ticks = [], async_sends = 0, scopes = []\<rparr>"

text \<open>
  \<^verbatim>\<open>std::find(first, last, value)\<close>: the position of the first element equal to
  \<open>value\<close>, or the end position (the length) when there is none.
\<close>

fun std_find :: "'a list \<Rightarrow> 'a \<Rightarrow> nat" where
  "std_find [] v = 0"
| "std_find (x # xs) v = (if x = v then 0 else Suc (std_find xs v))"

text \<open>\<^verbatim>\<open>std::list::erase(it)\<close> for a position before the end.\<close>

definition erase :: "'a list \<Rightarrow> nat \<Rightarrow> 'a list" where
  "erase xs it = take it xs @ drop (Suc it) xs"

text \<open>
  \<^verbatim>\<open>
  void ElectronBindings::EnvironmentDestroyed(node::Environment* env) {
    auto it =
        std::find(pending_next_ticks_.begin(), pending_next_ticks_.end(), env);
    if (it != pending_next_ticks_.end())
      pending_next_ticks_.erase(it);
  }
  \<close>
\<close>

definition EnvironmentDestroyed :: "'e \<Rightarrow> 'e bindings \<Rightarrow> 'e bindings" where
  "EnvironmentDestroyed env s =
     (let it = std_find (pending_next_ticks s) env
      in if it \<noteq> length (pending_next_ticks s)
         then s\<lparr>pending_next_ticks := erase (pending_next_ticks s) it\<rparr>
         else s)"

text \<open>
  \<^verbatim>\<open>
  void ElectronBindings::ActivateUVLoop(v8::Isolate* isolate) {
    node::Environment* env = node::Environment::GetCurrent(isolate);
    if (std::find(pending_next_ticks_.begin(), pending_next_ticks_.end(), env) !=
        pending_next_ticks_.end())
      return;

    pending_next_ticks_.push_back(env);
    uv_async_send(&call_next_tick_async_);
  }
  \<close>
  The model takes the environment that \<^verbatim>\<open>GetCurrent\<close> returns as its argument.
\<close>

definition ActivateUVLoop :: "'e \<Rightarrow> 'e bindings \<Rightarrow> 'e bindings" where
  "ActivateUVLoop env s =
     (if std_find (pending_next_ticks s) env \<noteq> length (pending_next_ticks s)
      then s
      else s\<lparr>pending_next_ticks := pending_next_ticks s @ [env],
             async_sends := Suc (async_sends s)\<rparr>)"

text \<open>
  The body of the loop of \<^verbatim>\<open>OnCallNextTick\<close> builds and destroys a
  \<^verbatim>\<open>node::InternalCallbackScope\<close> for \<open>env\<close>. Closing the scope runs the tick
  queue and the microtasks of that environment, that is script code. Script code can
  call \<^verbatim>\<open>process.activateUvLoop()\<close> (bound to \<^verbatim>\<open>ActivateUVLoop\<close> in
  \<^verbatim>\<open>BindTo\<close>) any number of times, and it can bring about the teardown of an
  environment, whose owner then calls \<^verbatim>\<open>EnvironmentDestroyed\<close>. Node's scope is not
  part of these sources, so the script is a parameter: \<open>cb env\<close> is the list of the calls
  made on the object, in order, while the scope of \<open>env\<close> is open.
\<close>

datatype 'e action = Activate 'e | Destroy 'e

type_synonym 'e callback = "'e \<Rightarrow> 'e action list"

text \<open>
  The loop holds a \<^verbatim>\<open>std::list\<close> iterator, which points to a node. The model keeps
  it as the position \<open>it\<close> of that node in the current list. \<^verbatim>\<open>push_back\<close> leaves
  the iterator valid and the position as it is. \<^verbatim>\<open>erase\<close> of a node before the
  iterator leaves it valid and moves the position down by one; \<^verbatim>\<open>erase\<close> of a
  node after it changes nothing for it; \<^verbatim>\<open>erase\<close> of the node under the iterator
  invalidates it, and the \<^verbatim>\<open>++it\<close> that follows is undefined behaviour: this is
  the error of the model.
\<close>

datatype error = Iterator_invalidated

fun call :: "'e action \<Rightarrow> nat \<times> 'e bindings \<Rightarrow> error + nat \<times> 'e bindings" where
  "call (Activate c) (it, s) = Inr (it, ActivateUVLoop c s)"
| "call (Destroy c) (it, s) =
     (let p = std_find (pending_next_ticks s) c
      in if p = it then Inl Iterator_invalidated
         else Inr (if p < it then it - 1 else it, EnvironmentDestroyed c s))"

fun script_calls :: "'e action list \<Rightarrow> nat \<times> 'e bindings \<Rightarrow> error + nat \<times> 'e bindings" where
  "script_calls [] st = Inr st"
| "script_calls (a # as) st =
     (case call a st of Inl e \<Rightarrow> Inl e | Inr st' \<Rightarrow> script_calls as st')"

text \<open>One turn of the loop, for the node at position \<open>it\<close>.\<close>

definition visit :: "'e callback \<Rightarrow> nat \<Rightarrow> 'e bindings \<Rightarrow> error + nat \<times> 'e bindings" where
  "visit cb it s =
     (let env = pending_next_ticks s ! it
      in script_calls (cb env) (it, s\<lparr>scopes := scopes s @ [env]\<rparr>))"

text \<open>
  \<^verbatim>\<open>
  for (std::list<node::Environment*>::const_iterator it =
           self->pending_next_ticks_.begin();
       it != self->pending_next_ticks_.end(); ++it) {
    node::Environment* env = *it;
    gin_helper::Locker locker(env->isolate());
    v8::Context::Scope context_scope(env->context());
    node::InternalCallbackScope scope(
        env, v8::Local<v8::Object>(), {0, 0},
        node::InternalCallbackScope::kAllowEmptyResource);
  }
  \<close>
  The end is read again at every test, so elements appended during the loop are reached
  by it, and elements erased ahead of the iterator are never reached. Scripts that keep
  registering environments keep the loop running: the result is an option, and \<open>None\<close>
  is the loop that never ends.
\<close>

partial_function (option) drain ::
  "'e callback \<Rightarrow> nat \<Rightarrow> 'e bindings \<Rightarrow> (error + 'e bindings) option" where
  "drain cb it s =
     (if it \<noteq> length (pending_next_ticks s)
      then (case visit cb it s of
              Inl e \<Rightarrow> Some (Inl e)
            | Inr st \<Rightarrow> drain cb (Suc (fst st)) (snd st))
      else Some (Inr s))"

declare drain.simps [code]

text \<open>
  \<^verbatim>\<open>
  void ElectronBindings::OnCallNextTick(uv_async_t* handle) {
    ElectronBindings* self = static_cast<ElectronBindings*>(handle->data);
    for (...) { ... }
    self->pending_next_ticks_.clear();
  }
  \<close>
\<close>

definition OnCallNextTick :: "'e callback \<Rightarrow> 'e bindings \<Rightarrow> (error + 'e bindings) option" where
  "OnCallNextTick cb s =
     (case drain cb 0 s of
        None \<Rightarrow> None
      | Some (Inl e) \<Rightarrow> Some (Inl e)
      | Some (Inr s') \<Rightarrow> Some (Inr (s'\<lparr>pending_next_ticks := []\<rparr>)))"

text \<open>A script that makes no call on the object.\<close>

definition quiet :: "'e callback" where
  "quiet env = []"

text \<open>The scopes opened between two states, read off the log.\<close>

definition visited :: "'e bindings \<Rightarrow> 'e bindings \<Rightarrow> 'e list" where
  "visited s s' = drop (length (scopes s)) (scopes s')"

text \<open>
  A script that calls \<^verbatim>\<open>process.activateUvLoop()\<close> for the environments \<open>cs\<close>
  while the scope of \<open>env\<close> is open, and one that brings about the teardown of the
  environments \<open>cs\<close> there; neither does anything in any other scope.
\<close>

definition registers :: "'e \<Rightarrow> 'e list \<Rightarrow> 'e callback" where
  "registers env cs e = (if e = env then map Activate cs else [])"

definition unregisters :: "'e \<Rightarrow> 'e list \<Rightarrow> 'e callback" where
  "unregisters env cs e = (if e = env then map Destroy cs else [])"

text \<open>
  The states of the object: the constructed one, and those the three member functions
  lead to. One turn of the loop of \<^verbatim>\<open>OnCallNextTick\<close> is a step of its own, so that
  the states in the middle of a drain are covered too.
\<close>

inductive reachable :: "'e bindings \<Rightarrow> bool" where
  constructed: "reachable initial"
| activate: "reachable s \<Longrightarrow> reachable (ActivateUVLoop env s)"
| destroyed: "reachable s \<Longrightarrow> reachable (EnvironmentDestroyed env s)"
| scope: "reachable s \<Longrightarrow> it < length (pending_next_ticks s) \<Longrightarrow>
          visit cb it s = Inr (it', s') \<Longrightarrow> reachable s'"
| wake: "reachable s \<Longrightarrow> OnCallNextTick cb s = Some (Inr s') \<Longrightarrow> reachable s'"

section \<open>Shell bindings (shell/common/api/atom\_api\_shell.cc)\<close>

text \<open>
  \<^verbatim>\<open>gin::Arguments\<close>: the values of the call and the position of the next one to
  read. \<open>'v\<close> stands for \<^verbatim>\<open>v8::Local<v8::Value>\<close>.
\<close>

record 'v arguments =
  info :: "'v list"
  next_arg :: nat
  insufficient_arguments :: bool

text \<open>
  \<^verbatim>\<open>gin::Arguments::GetNext(T* out)\<close>, of the gin library:
  \<^verbatim>\<open>
  if (next_ >= info_->Length()) {
    insufficient_arguments_ = true;
    return false;
  }
  v8::Local<v8::Value> val = (*info_)[next_++];
  return ConvertFromV8(isolate_, val, out);
  \<close>
  The converter of the type \<open>T\<close> is the parameter \<open>conv\<close>: \<open>None\<close> is a conversion
  that returns false and leaves \<^verbatim>\<open>*out\<close> as it was. The result is the returned
  flag, the value of \<^verbatim>\<open>*out\<close> after the call, and the arguments object.
\<close>

definition GetNext :: "('v \<Rightarrow> 'a option) \<Rightarrow> 'a \<Rightarrow> 'v arguments \<Rightarrow> bool \<times> 'a \<times> 'v arguments" where
  "GetNext conv out args =
     (if next_arg args \<ge> length (info args)
      then (False, out, args\<lparr>insufficient_arguments := True\<rparr>)
      else (let val = info args ! next_arg args;
                args' = args\<lparr>next_arg := Suc (next_arg args)\<rparr>
            in case conv val of
                 None \<Rightarrow> (False, out, args')
               | Some x \<Rightarrow> (True, x, args')))"

text \<open>
  \<^verbatim>\<open>
  bool MoveItemToTrash(gin::Arguments* args) {
    base::FilePath full_path;
    args->GetNext(&full_path);

    bool delete_on_fail = false;
    args->GetNext(&delete_on_fail);

    return platform_util::MoveItemToTrash(full_path, delete_on_fail);
  }
  \<close>
  \<open>empty_path\<close> is the default-constructed \<^verbatim>\<open>base::FilePath\<close>, \<open>to_path\<close> and
  \<open>to_bool\<close> are the converters of the two types, and \<open>platform\<close> is
  \<^verbatim>\<open>platform_util::MoveItemToTrash\<close>. \<open>MoveItemToTrash_call\<close> is the pair of
  values the platform function is called with.
\<close>

definition MoveItemToTrash_call ::
  "'p \<Rightarrow> ('v \<Rightarrow> 'p option) \<Rightarrow> ('v \<Rightarrow> bool option) \<Rightarrow> 'v arguments \<Rightarrow> 'p \<times> bool" where
  "MoveItemToTrash_call empty_path to_path to_bool args =
     (case GetNext to_path empty_path args of
        (_, full_path, args1) \<Rightarrow>
          (case GetNext to_bool False args1 of
             (_, delete_on_fail, _) \<Rightarrow> (full_path, delete_on_fail)))"

definition MoveItemToTrash ::
  "('p \<Rightarrow> bool \<Rightarrow> bool) \<Rightarrow> 'p \<Rightarrow> ('v \<Rightarrow> 'p option) \<Rightarrow> ('v \<Rightarrow> bool option) \<Rightarrow> 'v arguments \<Rightarrow> bool" where
  "MoveItemToTrash platform empty_path to_path to_bool args =
     (case MoveItemToTrash_call empty_path to_path to_bool args of
        (full_path, delete_on_fail) \<Rightarrow> platform full_path delete_on_fail)"

text \<open>The operations of \<^verbatim>\<open>base::win::ShortcutOperation\<close> that the converter names.\<close>

datatype ShortcutOperation =
  SHORTCUT_CREATE_ALWAYS | SHORTCUT_REPLACE_EXISTING | SHORTCUT_UPDATE_EXISTING

text \<open>
  \<^verbatim>\<open>
  static bool FromV8(v8::Isolate* isolate,
                     v8::Handle<v8::Value> val,
                     base::win::ShortcutOperation* out) {
    std::string operation;
    if (!ConvertFromV8(isolate, val, &operation))
      return false;
    if (operation.empty() || operation == "create")
      *out = base::win::SHORTCUT_CREATE_ALWAYS;
    else if (operation == "update")
      *out = base::win::SHORTCUT_UPDATE_EXISTING;
    else if (operation == "replace")
      *out = base::win::SHORTCUT_REPLACE_EXISTING;
    else
      return false;
    return true;
  }
  \<close>
  \<open>to_string\<close> is the converter to \<^verbatim>\<open>std::string\<close>. The result is the returned
  flag and the value of \<^verbatim>\<open>*out\<close> after the call.
\<close>

definition FromV8 ::
  "('v \<Rightarrow> string option) \<Rightarrow> 'v \<Rightarrow> ShortcutOperation \<Rightarrow> bool \<times> ShortcutOperation" where
  "FromV8 to_string val out =
     (case to_string val of
        None \<Rightarrow> (False, out)
      | Some operation \<Rightarrow>
          if operation = [] \<or> operation = ''create'' then (True, SHORTCUT_CREATE_ALWAYS)
          else if operation = ''update'' then (True, SHORTCUT_UPDATE_EXISTING)
          else if operation = ''replace'' then (True, SHORTCUT_REPLACE_EXISTING)
          else (False, out))"

section \<open>Facts about the list operations and the loop\<close>

lemma std_find_le: "std_find xs v \<le> length xs"
  by (induction xs) auto

lemma std_find_end_iff: "std_find xs v = length xs \<longleftrightarrow> v \<notin> set xs"
proof (induction xs)
  case Nil
  show ?case by simp
next
  case (Cons x xs)
  have "std_find xs v \<le> length xs" by (rule std_find_le)
  with Cons show ?case by auto
qed

lemma erase_std_find: "v \<in> set xs \<Longrightarrow> erase xs (std_find xs v) = remove1 v xs"
  by (induction xs) (auto simp: erase_def)

lemma std_find_append: "c \<notin> set xs \<Longrightarrow> std_find (xs @ c # ys) c = length xs"
  by (induction xs) auto

lemma erase_append: "erase (xs @ c # ys) (length xs) = xs @ ys"
  by (simp add: erase_def)

lemma ActivateUVLoop_pending:
  "env \<in> set (pending_next_ticks s) \<Longrightarrow> ActivateUVLoop env s = s"
  by (simp add: ActivateUVLoop_def std_find_end_iff)

lemma ActivateUVLoop_fresh:
  "env \<notin> set (pending_next_ticks s) \<Longrightarrow>
   ActivateUVLoop env s =
     s\<lparr>pending_next_ticks := pending_next_ticks s @ [env],
       async_sends := Suc (async_sends s)\<rparr>"
  by (simp add: ActivateUVLoop_def std_find_end_iff)

lemma EnvironmentDestroyed_remove1:
  "EnvironmentDestroyed env s =
     s\<lparr>pending_next_ticks := remove1 env (pending_next_ticks s)\<rparr>"
  by (simp add: EnvironmentDestroyed_def Let_def std_find_end_iff erase_std_find remove1_idem)

lemma EnvironmentDestroyed_absent:
  "env \<notin> set (pending_next_ticks s) \<Longrightarrow> EnvironmentDestroyed env s = s"
  by (simp add: EnvironmentDestroyed_def std_find_end_iff)

lemma EnvironmentDestroyed_split:
  "pending_next_ticks s = xs @ c # ys \<Longrightarrow> c \<notin> set xs \<Longrightarrow>
   EnvironmentDestroyed c s = s\<lparr>pending_next_ticks := xs @ ys\<rparr>"
  by (simp add: EnvironmentDestroyed_def std_find_append erase_append)

text \<open>What one call of a script keeps.\<close>

lemma call_keeps:
  assumes c: "call a (it, s) = Inr (it', s')" and lt: "it < length (pending_next_ticks s)"
  shows "it' < length (pending_next_ticks s')
       \<and> pending_next_ticks s' ! it' = pending_next_ticks s ! it
       \<and> scopes s' = scopes s
       \<and> (distinct (pending_next_ticks s) \<longrightarrow> distinct (pending_next_ticks s'))
       \<and> set (pending_next_ticks s') \<subseteq> set (pending_next_ticks s) \<union> {c. a = Activate c}
       \<and> ((\<forall>c. a = Destroy c \<longrightarrow> \<not> k c) \<longrightarrow>
            filter k (take (Suc it') (pending_next_ticks s'))
              = filter k (take (Suc it) (pending_next_ticks s))
          \<and> (\<exists>X. filter k (pending_next_ticks s') = filter k (pending_next_ticks s) @ X
                 \<and> (\<forall>x \<in> set X. x \<notin> set (pending_next_ticks s))))"
proof (cases a)
  case (Activate c)
  with assms have r: "it' = it" "s' = ActivateUVLoop c s" by simp_all
  show ?thesis
  proof (cases "c \<in> set (pending_next_ticks s)")
    case True
    with r lt Activate show ?thesis by (auto simp: ActivateUVLoop_pending)
  next
    case False
    with r lt Activate show ?thesis by (auto simp: ActivateUVLoop_fresh nth_append)
  qed
next
  case (Destroy c)
  let ?L = "pending_next_ticks s"
  show ?thesis
  proof (cases "c \<in> set ?L")
    case False
    then have "std_find ?L c = length ?L" by (simp add: std_find_end_iff)
    with assms Destroy False have "it' = it" "s' = s"
      by (simp_all add: EnvironmentDestroyed_absent)
    with lt show ?thesis by simp
  next
    case True
    then obtain xs ys where L: "?L = xs @ c # ys" and nx: "c \<notin> set xs"
      by (meson split_list_first)
    then have p: "std_find ?L c = length xs" by (simp add: std_find_append)
    from L nx have d: "EnvironmentDestroyed c s = s\<lparr>pending_next_ticks := xs @ ys\<rparr>"
      by (rule EnvironmentDestroyed_split)
    from assms Destroy p have ne: "length xs \<noteq> it" by (auto simp: Let_def)
    show ?thesis
    proof (cases "length xs < it")
      case True
      with assms Destroy p d have r: "it' = it - 1" "s' = s\<lparr>pending_next_ticks := xs @ ys\<rparr>"
        by (simp_all add: Let_def)
      from True obtain j where j: "it = Suc (length xs + j)"
        by (metis less_iff_Suc_add add_Suc_right)
      with lt L have jl: "j < length ys" by simp
      from r j jl L Destroy nx show ?thesis by (auto simp: nth_append)
    next
      case False
      with ne have gt: "it < length xs" by simp
      with assms Destroy p d have r: "it' = it" "s' = s\<lparr>pending_next_ticks := xs @ ys\<rparr>"
        by (simp_all add: Let_def)
      from r gt L Destroy nx show ?thesis by (auto simp: nth_append)
    qed
  qed
qed


lemma script_calls_append:
  "script_calls (xs @ ys) st =
     (case script_calls xs st of Inl e \<Rightarrow> Inl e | Inr st' \<Rightarrow> script_calls ys st')"
  by (induction xs arbitrary: st) (auto split: sum.splits)

text \<open>What the calls of a whole script keep.\<close>

lemma script_calls_keeps:
  "script_calls as (it, s) = Inr (it', s') \<Longrightarrow> it < length (pending_next_ticks s) \<Longrightarrow>
   it' < length (pending_next_ticks s')
   \<and> pending_next_ticks s' ! it' = pending_next_ticks s ! it
   \<and> scopes s' = scopes s
   \<and> (distinct (pending_next_ticks s) \<longrightarrow> distinct (pending_next_ticks s'))
   \<and> set (pending_next_ticks s') \<subseteq> set (pending_next_ticks s) \<union> {c. Activate c \<in> set as}
   \<and> ((\<forall>c. Destroy c \<in> set as \<longrightarrow> \<not> k c) \<longrightarrow>
        filter k (take (Suc it') (pending_next_ticks s'))
          = filter k (take (Suc it) (pending_next_ticks s))
      \<and> (\<exists>X. filter k (pending_next_ticks s') = filter k (pending_next_ticks s) @ X
             \<and> (\<forall>x \<in> set X. x \<notin> set (pending_next_ticks s))))"
proof (induction as arbitrary: it s)
  case Nil
  then show ?case by simp
next
  case (Cons a as)
  from Cons.prems(1) obtain it1 s1 where c: "call a (it, s) = Inr (it1, s1)"
    and rest: "script_calls as (it1, s1) = Inr (it', s')"
    by (auto split: sum.splits)
  note one = call_keeps [OF c Cons.prems(2), of k]
  from one have lt1: "it1 < length (pending_next_ticks s1)" by blast
  note more = Cons.IH [OF rest lt1]
  have 1: "it' < length (pending_next_ticks s')" using more by blast
  have 2: "pending_next_ticks s' ! it' = pending_next_ticks s ! it" using one more by simp
  have 3: "scopes s' = scopes s" using one more by simp
  have 4: "distinct (pending_next_ticks s) \<longrightarrow> distinct (pending_next_ticks s')"
    using one more by blast
  have 5: "set (pending_next_ticks s') \<subseteq> set (pending_next_ticks s) \<union> {c. Activate c \<in> set (a # as)}"
  proof
    fix x assume "x \<in> set (pending_next_ticks s')"
    with more have "x \<in> set (pending_next_ticks s1) \<or> Activate x \<in> set as" by blast
    with one show "x \<in> set (pending_next_ticks s) \<union> {c. Activate c \<in> set (a # as)}" by auto
  qed
  have 6: "filter k (take (Suc it') (pending_next_ticks s'))
             = filter k (take (Suc it) (pending_next_ticks s))
         \<and> (\<exists>X. filter k (pending_next_ticks s') = filter k (pending_next_ticks s) @ X
                \<and> (\<forall>x \<in> set X. x \<notin> set (pending_next_ticks s)))"
    if nd: "\<forall>c. Destroy c \<in> set (a # as) \<longrightarrow> \<not> k c"
  proof -
    from nd have nda: "\<forall>c. a = Destroy c \<longrightarrow> \<not> k c"
      and ndas: "\<forall>c. Destroy c \<in> set as \<longrightarrow> \<not> k c" by auto
    from one nda obtain X1 where
      t1: "filter k (take (Suc it1) (pending_next_ticks s1))
             = filter k (take (Suc it) (pending_next_ticks s))"
      and x1: "filter k (pending_next_ticks s1) = filter k (pending_next_ticks s) @ X1"
      and n1: "\<forall>x \<in> set X1. x \<notin> set (pending_next_ticks s)" by blast
    from more ndas obtain X2 where
      t2: "filter k (take (Suc it') (pending_next_ticks s'))
             = filter k (take (Suc it1) (pending_next_ticks s1))"
      and x2: "filter k (pending_next_ticks s') = filter k (pending_next_ticks s1) @ X2"
      and n2: "\<forall>x \<in> set X2. x \<notin> set (pending_next_ticks s1)" by blast
    have "x \<notin> set (pending_next_ticks s)" if x: "x \<in> set X2" for x
    proof
      assume xs: "x \<in> set (pending_next_ticks s)"
      from x x2 have "x \<in> set (filter k (pending_next_ticks s'))" by simp
      then have "k x" by simp
      with xs have "x \<in> set (filter k (pending_next_ticks s))" by simp
      with x1 have "x \<in> set (filter k (pending_next_ticks s1))" by simp
      then have "x \<in> set (pending_next_ticks s1)" by simp
      with n2 x show False by blast
    qed
    with n1 have "\<forall>x \<in> set (X1 @ X2). x \<notin> set (pending_next_ticks s)" by auto
    moreover from x1 x2 have
      "filter k (pending_next_ticks s') = filter k (pending_next_ticks s) @ X1 @ X2" by simp
    ultimately show ?thesis using t1 t2 by metis
  qed
  from 1 2 3 4 5 6 show ?case by blast
qed

text \<open>A script that only registers leaves the iterator alone and appends what is new.\<close>

lemma script_calls_registers_only:
  "\<forall>c. Destroy c \<notin> set as \<Longrightarrow>
   \<exists>new. script_calls as (it, s) =
           Inr (it, s\<lparr>pending_next_ticks := pending_next_ticks s @ new,
                      async_sends := async_sends s + length new\<rparr>)
       \<and> distinct new \<and> set new = {c. Activate c \<in> set as} - set (pending_next_ticks s)"
proof (induction as arbitrary: s)
  case Nil
  show ?case by simp
next
  case (Cons a as)
  from Cons.prems obtain c where a: "a = Activate c" by (cases a) auto
  from Cons.prems have nd: "\<forall>c. Destroy c \<notin> set as" by simp
  show ?case
  proof (cases "c \<in> set (pending_next_ticks s)")
    case True
    from Cons.IH [OF nd, of s] obtain new where
      "script_calls as (it, s) =
           Inr (it, s\<lparr>pending_next_ticks := pending_next_ticks s @ new,
                      async_sends := async_sends s + length new\<rparr>)"
      "distinct new" "set new = {c. Activate c \<in> set as} - set (pending_next_ticks s)" by blast
    with True a show ?thesis
      by (intro exI [of _ new]) (auto simp: ActivateUVLoop_pending)
  next
    case False
    let ?t = "s\<lparr>pending_next_ticks := pending_next_ticks s @ [c],
               async_sends := Suc (async_sends s)\<rparr>"
    from Cons.IH [OF nd, of ?t] obtain new where
      "script_calls as (it, ?t) =
           Inr (it, ?t\<lparr>pending_next_ticks := pending_next_ticks ?t @ new,
                       async_sends := async_sends ?t + length new\<rparr>)"
      "distinct new" "set new = {c. Activate c \<in> set as} - set (pending_next_ticks ?t)" by blast
    with False a show ?thesis
      by (intro exI [of _ "c # new"]) (auto simp: ActivateUVLoop_fresh)
  qed
qed

lemma visit_keeps:
  assumes v: "visit cb it s = Inr (it', s')" and lt: "it < length (pending_next_ticks s)"
  shows "it' < length (pending_next_ticks s')
   \<and> pending_next_ticks s' ! it' = pending_next_ticks s ! it
   \<and> scopes s' = scopes s @ [pending_next_ticks s ! it]
   \<and> (distinct (pending_next_ticks s) \<longrightarrow> distinct (pending_next_ticks s'))
   \<and> set (pending_next_ticks s') \<subseteq> set (pending_next_ticks s) \<union> {c. \<exists>e. Activate c \<in> set (cb e)}
   \<and> ((\<forall>e c. Destroy c \<in> set (cb e) \<longrightarrow> \<not> k c) \<longrightarrow>
        filter k (take (Suc it') (pending_next_ticks s'))
          = filter k (take (Suc it) (pending_next_ticks s))
      \<and> (\<exists>X. filter k (pending_next_ticks s') = filter k (pending_next_ticks s) @ X
             \<and> (\<forall>x \<in> set X. x \<notin> set (pending_next_ticks s))))"
proof -
  let ?e = "pending_next_ticks s ! it"
  let ?s0 = "s\<lparr>scopes := scopes s @ [?e]\<rparr>"
  from v have c: "script_calls (cb ?e) (it, ?s0) = Inr (it', s')" by (simp add: visit_def Let_def)
  from lt have lt0: "it < length (pending_next_ticks ?s0)" by simp
  from script_calls_keeps [OF c lt0, of k] show ?thesis by (simp, blast)
qed


lemmas drain_induct = drain.raw_induct [rotated, consumes 1, case_names step]

text \<open>
  What a drain that returns has done, from the position \<open>it\<close> on. The predicate \<open>k\<close>
  picks environments that no script unregisters: they stay in the list, in their order.
\<close>

lemma drain_result:
  "drain cb it s = Some r \<Longrightarrow>
   r = Inr d \<longrightarrow> it \<le> length (pending_next_ticks s) \<longrightarrow>
   (\<exists>V. scopes d = scopes s @ V
      \<and> (distinct (pending_next_ticks s) \<longrightarrow> distinct (pending_next_ticks d))
      \<and> set V \<subseteq> set (pending_next_ticks s) \<union> {c. \<exists>e. Activate c \<in> set (cb e)}
      \<and> set (pending_next_ticks d)
           \<subseteq> set (pending_next_ticks s) \<union> {c. \<exists>e. Activate c \<in> set (cb e)}
      \<and> ((\<forall>e c. Destroy c \<in> set (cb e) \<longrightarrow> \<not> k c) \<longrightarrow>
           filter k (pending_next_ticks d) = filter k (take it (pending_next_ticks s)) @ filter k V
         \<and> (\<exists>X. filter k (pending_next_ticks d) = filter k (pending_next_ticks s) @ X
                \<and> (\<forall>x \<in> set X. x \<notin> set (pending_next_ticks s)))))"
proof (induction cb it s r rule: drain_induct)
  case (step f cb it s r)
  let ?L = "pending_next_ticks s"
  let ?R = "{c. \<exists>e. Activate c \<in> set (cb e)}"
  show ?case
  proof (intro impI)
    assume r: "r = Inr d" and le: "it \<le> length ?L"
    show "\<exists>V. scopes d = scopes s @ V
      \<and> (distinct ?L \<longrightarrow> distinct (pending_next_ticks d))
      \<and> set V \<subseteq> set ?L \<union> ?R
      \<and> set (pending_next_ticks d) \<subseteq> set ?L \<union> ?R
      \<and> ((\<forall>e c. Destroy c \<in> set (cb e) \<longrightarrow> \<not> k c) \<longrightarrow>
           filter k (pending_next_ticks d) = filter k (take it ?L) @ filter k V
         \<and> (\<exists>X. filter k (pending_next_ticks d) = filter k ?L @ X
                \<and> (\<forall>x \<in> set X. x \<notin> set ?L)))"
    proof (cases "it = length ?L")
      case True
      with step.hyps r have "d = s" by simp
      with True show ?thesis by (intro exI [of _ "[]"]) simp
    next
      case False
      with le have lt: "it < length ?L" by simp
      let ?e = "?L ! it"
      from False step.hyps r obtain it' s' where v: "visit cb it s = Inr (it', s')"
        and run: "f cb (Suc it') s' = Some r"
        by (auto split: sum.splits)
      note turn = visit_keeps [OF v lt, of k]
      from turn have lt': "Suc it' \<le> length (pending_next_ticks s')" by simp
      from step.IH [OF run] r lt' obtain V where
        sc: "scopes d = scopes s' @ V"
        and di: "distinct (pending_next_ticks s') \<longrightarrow> distinct (pending_next_ticks d)"
        and sv: "set V \<subseteq> set (pending_next_ticks s') \<union> ?R"
        and sp: "set (pending_next_ticks d) \<subseteq> set (pending_next_ticks s') \<union> ?R"
        and kk: "(\<forall>e c. Destroy c \<in> set (cb e) \<longrightarrow> \<not> k c) \<longrightarrow>
           filter k (pending_next_ticks d)
             = filter k (take (Suc it') (pending_next_ticks s')) @ filter k V
         \<and> (\<exists>X. filter k (pending_next_ticks d) = filter k (pending_next_ticks s') @ X
                \<and> (\<forall>x \<in> set X. x \<notin> set (pending_next_ticks s')))"
        by blast
      from turn have sub: "set (pending_next_ticks s') \<subseteq> set ?L \<union> ?R" by blast
      have 1: "scopes d = scopes s @ ?e # V" using sc turn by simp
      have 2: "distinct ?L \<longrightarrow> distinct (pending_next_ticks d)" using di turn by blast
      have 3: "set (?e # V) \<subseteq> set ?L \<union> ?R" using sv sub lt by auto
      have 4: "set (pending_next_ticks d) \<subseteq> set ?L \<union> ?R" using sp sub by auto
      have 5: "filter k (pending_next_ticks d) = filter k (take it ?L) @ filter k (?e # V)
         \<and> (\<exists>X. filter k (pending_next_ticks d) = filter k ?L @ X
                \<and> (\<forall>x \<in> set X. x \<notin> set ?L))"
        if nd: "\<forall>e c. Destroy c \<in> set (cb e) \<longrightarrow> \<not> k c"
      proof -
        from turn nd obtain X1 where
          t1: "filter k (take (Suc it') (pending_next_ticks s')) = filter k (take (Suc it) ?L)"
          and x1: "filter k (pending_next_ticks s') = filter k ?L @ X1"
          and n1: "\<forall>x \<in> set X1. x \<notin> set ?L" by blast
        from kk nd obtain X2 where
          t2: "filter k (pending_next_ticks d)
                 = filter k (take (Suc it') (pending_next_ticks s')) @ filter k V"
          and x2: "filter k (pending_next_ticks d) = filter k (pending_next_ticks s') @ X2"
          and n2: "\<forall>x \<in> set X2. x \<notin> set (pending_next_ticks s')" by blast
        have "take (Suc it) ?L = take it ?L @ [?e]" using lt by (rule take_Suc_conv_app_nth)
        with t1 t2 have a: "filter k (pending_next_ticks d)
            = filter k (take it ?L) @ filter k (?e # V)" by simp
        have "x \<notin> set ?L" if x: "x \<in> set X2" for x
        proof
          assume xs: "x \<in> set ?L"
          from x x2 have "x \<in> set (filter k (pending_next_ticks d))" by simp
          then have "k x" by simp
          with xs have "x \<in> set (filter k ?L)" by simp
          with x1 have "x \<in> set (filter k (pending_next_ticks s'))" by simp
          then have "x \<in> set (pending_next_ticks s')" by simp
          with n2 x show False by blast
        qed
        with n1 have "\<forall>x \<in> set (X1 @ X2). x \<notin> set ?L" by auto
        moreover from x1 x2 have "filter k (pending_next_ticks d) = filter k ?L @ X1 @ X2" by simp
        ultimately show ?thesis using a by metis
      qed
      from 1 2 3 4 5 show ?thesis by blast
    qed
  qed
qed

lemma drain_quiet:
  "it \<le> length (pending_next_ticks s) \<Longrightarrow>
   drain quiet it s = Some (Inr (s\<lparr>scopes := scopes s @ drop it (pending_next_ticks s)\<rparr>))"
proof (induction "length (pending_next_ticks s) - it" arbitrary: it s)
  case 0
  then show ?case by (simp add: drain.simps)
next
  case (Suc n)
  let ?P = "pending_next_ticks s"
  from Suc.hyps(2) have lt: "it < length ?P" by simp
  let ?t = "s\<lparr>scopes := scopes s @ [?P ! it]\<rparr>"
  have v: "visit quiet it s = Inr (it, ?t)" by (simp add: visit_def quiet_def)
  from Suc.hyps(2) have "n = length (pending_next_ticks ?t) - Suc it" by simp
  moreover from lt have "Suc it \<le> length (pending_next_ticks ?t)" by simp
  ultimately have "drain quiet (Suc it) ?t =
      Some (Inr (?t\<lparr>scopes := scopes ?t @ drop (Suc it) (pending_next_ticks ?t)\<rparr>))"
    by (rule Suc.hyps(1))
  moreover from lt have "drain quiet it s = drain quiet (Suc it) ?t"
    by (subst drain.simps) (simp add: v)
  ultimately show ?case using Cons_nth_drop_Suc [OF lt, symmetric] by simp
qed

text \<open>
  The loop ends when no script unregisters and the scripts register finitely many
  environments between them.
\<close>

lemma drain_returns:
  assumes nd: "\<forall>e c. Destroy c \<notin> set (cb e)"
    and fin: "finite {c. \<exists>e. Activate c \<in> set (cb e)}"
  shows "it \<le> length (pending_next_ticks s) \<Longrightarrow> \<exists>d. drain cb it s = Some (Inr d)"
proof (induction "card ({c. \<exists>e. Activate c \<in> set (cb e)} - set (pending_next_ticks s))
                  + (length (pending_next_ticks s) - it)"
       arbitrary: it s rule: less_induct)
  case less
  let ?P = "pending_next_ticks s"
  let ?R = "{c. \<exists>e. Activate c \<in> set (cb e)}"
  show ?case
  proof (cases "it = length ?P")
    case True
    then show ?thesis by (simp add: drain.simps)
  next
    case False
    with less.prems have lt: "it < length ?P" by simp
    let ?e = "?P ! it"
    let ?s0 = "s\<lparr>scopes := scopes s @ [?e]\<rparr>"
    from nd have "\<forall>c. Destroy c \<notin> set (cb ?e)" by blast
    from script_calls_registers_only [OF this, of it ?s0] obtain new where
      sc: "script_calls (cb ?e) (it, ?s0) =
           Inr (it, ?s0\<lparr>pending_next_ticks := pending_next_ticks ?s0 @ new,
                        async_sends := async_sends ?s0 + length new\<rparr>)"
      and dn: "distinct new"
      and sn: "set new = {c. Activate c \<in> set (cb ?e)} - set (pending_next_ticks ?s0)"
      by blast
    let ?t = "?s0\<lparr>pending_next_ticks := pending_next_ticks ?s0 @ new,
                  async_sends := async_sends ?s0 + length new\<rparr>"
    from sc have v: "visit cb it s = Inr (it, ?t)" by (simp add: visit_def Let_def)
    have pt: "pending_next_ticks ?t = ?P @ new" by simp
    have finP: "finite (?R - set ?P)" using fin by simp
    from sn have sub: "set new \<subseteq> ?R - set ?P" by auto
    have "?R - set (?P @ new) = (?R - set ?P) - set new" by auto
    then have "card (?R - set (?P @ new)) = card (?R - set ?P) - card (set new)"
      using card_Diff_subset [of "set new" "?R - set ?P"] sub by simp
    moreover have "card (set new) = length new" using dn by (rule distinct_card)
    moreover have "card (set new) \<le> card (?R - set ?P)" using sub finP by (rule card_mono [rotated])
    ultimately have "card (?R - set (pending_next_ticks ?t)) + (length (pending_next_ticks ?t) - Suc it)
        < card (?R - set ?P) + (length ?P - it)"
      using lt pt by simp
    moreover from lt pt have "Suc it \<le> length (pending_next_ticks ?t)" by simp
    ultimately have "\<exists>d. drain cb (Suc it) ?t = Some (Inr d)" by (rule less.hyps)
    moreover from False v have "drain cb it s = drain cb (Suc it) ?t"
      by (subst drain.simps) simp
    ultimately show ?thesis by simp
  qed
qed

lemma count_list_distinct: "distinct xs \<Longrightarrow> x \<in> set xs \<Longrightarrow> count_list xs x = 1"
  by (induction xs) auto

lemma count_list_filter: "p c \<Longrightarrow> count_list (filter p xs) c = count_list xs c"
  by (induction xs) auto

lemma OnCallNextTick_Inr:
  "OnCallNextTick cb s = Some (Inr s') \<Longrightarrow>
   \<exists>d. drain cb 0 s = Some (Inr d) \<and> s' = d\<lparr>pending_next_ticks := []\<rparr>"
  by (auto simp: OnCallNextTick_def split: option.splits sum.splits)

lemma OnCallNextTick_result:
  assumes r: "OnCallNextTick cb s = Some (Inr s')"
  shows "pending_next_ticks s' = []
       \<and> set (visited s s') \<subseteq> set (pending_next_ticks s) \<union> {c. \<exists>e. Activate c \<in> set (cb e)}
       \<and> ((\<forall>e c. Destroy c \<in> set (cb e) \<longrightarrow> \<not> k c) \<longrightarrow>
            (distinct (pending_next_ticks s) \<longrightarrow> distinct (filter k (visited s s')))
          \<and> (\<exists>X. filter k (visited s s') = filter k (pending_next_ticks s) @ X
                 \<and> (\<forall>x \<in> set X. x \<notin> set (pending_next_ticks s))))"
proof -
  from OnCallNextTick_Inr [OF r] obtain d where d: "drain cb 0 s = Some (Inr d)"
    and s': "s' = d\<lparr>pending_next_ticks := []\<rparr>" by blast
  from drain_result [OF d, of d k] obtain V where
    sc: "scopes d = scopes s @ V"
    and di: "distinct (pending_next_ticks s) \<longrightarrow> distinct (pending_next_ticks d)"
    and sv: "set V \<subseteq> set (pending_next_ticks s) \<union> {c. \<exists>e. Activate c \<in> set (cb e)}"
    and kk: "(\<forall>e c. Destroy c \<in> set (cb e) \<longrightarrow> \<not> k c) \<longrightarrow>
           filter k (pending_next_ticks d) = filter k (take 0 (pending_next_ticks s)) @ filter k V
         \<and> (\<exists>X. filter k (pending_next_ticks d) = filter k (pending_next_ticks s) @ X
                \<and> (\<forall>x \<in> set X. x \<notin> set (pending_next_ticks s)))"
    by auto
  from sc s' have v: "visited s s' = V" by (simp add: visited_def)
  have "(distinct (pending_next_ticks s) \<longrightarrow> distinct (filter k V))
          \<and> (\<exists>X. filter k V = filter k (pending_next_ticks s) @ X
                 \<and> (\<forall>x \<in> set X. x \<notin> set (pending_next_ticks s)))"
    if nd: "\<forall>e c. Destroy c \<in> set (cb e) \<longrightarrow> \<not> k c"
  proof -
    from kk nd have eq: "filter k (pending_next_ticks d) = filter k V" by simp
    from di have "distinct (pending_next_ticks s) \<longrightarrow> distinct (filter k (pending_next_ticks d))"
      by simp
    with eq kk nd show ?thesis by metis
  qed
  with v s' sv show ?thesis by simp
qed

lemma OnCallNextTick_quiet:
  "OnCallNextTick quiet s =
     Some (Inr (s\<lparr>pending_next_ticks := [], scopes := scopes s @ pending_next_ticks s\<rparr>))"
  by (simp add: OnCallNextTick_def drain_quiet)

lemma OnCallNextTick_returns:
  "\<forall>e c. Destroy c \<notin> set (cb e) \<Longrightarrow> finite {c. \<exists>e. Activate c \<in> set (cb e)} \<Longrightarrow>
   \<exists>s'. OnCallNextTick cb s = Some (Inr s')"
  using drain_returns [of cb 0 s] by (auto simp: OnCallNextTick_def)

lemma OnCallNextTick_empty:
  "pending_next_ticks s = [] \<Longrightarrow> OnCallNextTick cb s = Some (Inr s)"
  by (simp add: OnCallNextTick_def drain.simps)

lemma registers_finite: "finite {c. \<exists>e. Activate c \<in> set (registers env cs e)}"
proof (rule finite_subset)
  show "{c. \<exists>e. Activate c \<in> set (registers env cs e)} \<subseteq> set cs"
    by (auto simp: registers_def split: if_splits)
qed simp

lemma registers_no_Destroy: "Destroy c \<notin> set (registers env cs e)"
  by (auto simp: registers_def)

lemma unregisters_no_Activate: "Activate c \<notin> set (unregisters env cs e)"
  by (auto simp: unregisters_def)

lemma unregisters_Destroy: "Destroy c \<in> set (unregisters env cs e) \<longleftrightarrow> e = env \<and> c \<in> set cs"
  by (auto simp: unregisters_def)

text \<open>
  The loop need not end: with the natural numbers as environments and a script that
  registers the successor of the environment it runs in, every turn appends a new element.
\<close>

lemma drain_successors:
  "drain cb it s = Some r \<Longrightarrow>
   cb = (\<lambda>n. [Activate (Suc n)]) \<longrightarrow>
   (\<forall>n. pending_next_ticks s = [0..<n] \<longrightarrow> it < n \<longrightarrow> False)"
proof (induction cb it s r rule: drain_induct)
  case (step f cb it s r)
  show ?case
  proof (intro impI allI)
    fix n
    assume cb: "cb = (\<lambda>n. [Activate (Suc n)])"
      and L: "pending_next_ticks s = [0..<n]" and lt: "it < n"
    let ?s0 = "s\<lparr>scopes := scopes s @ [it]\<rparr>"
    let ?s1 = "ActivateUVLoop (Suc it) ?s0"
    from cb L lt have v: "visit cb it s = Inr (it, ?s1)" by (simp add: visit_def)
    with step.hyps L lt have run: "f cb (Suc it) ?s1 = Some r" by simp
    show False
    proof (cases "Suc it < n")
      case True
      with L have "Suc it \<in> set (pending_next_ticks ?s0)" by simp
      then have "?s1 = ?s0" by (rule ActivateUVLoop_pending)
      with L have "pending_next_ticks ?s1 = [0..<n]" by simp
      with step.IH [OF run] cb True show False by blast
    next
      case False
      with lt have n: "n = Suc it" by simp
      with L have "Suc it \<notin> set (pending_next_ticks ?s0)" by simp
      then have "pending_next_ticks ?s1 = pending_next_ticks ?s0 @ [Suc it]"
        by (simp add: ActivateUVLoop_fresh)
      with L n have "pending_next_ticks ?s1 = [0..<Suc (Suc it)]" by simp
      with step.IH [OF run] cb show False by blast
    qed
  qed
qed

lemma OnCallNextTick_may_not_return:
  "OnCallNextTick (\<lambda>n. [Activate (Suc n)])
     \<lparr>pending_next_ticks = [0], async_sends = 1, scopes = []\<rparr> = None"
proof -
  let ?s = "\<lparr>pending_next_ticks = [0::nat], async_sends = 1, scopes = []\<rparr>"
  have "pending_next_ticks ?s = [0..<Suc 0]" by simp
  with drain_successors [of "\<lambda>n. [Activate (Suc n)]" 0 ?s]
  have "drain (\<lambda>n. [Activate (Suc n)]) 0 ?s = None"
    by (cases "drain (\<lambda>n. [Activate (Suc n)]) 0 ?s") blast+
  then show ?thesis by (simp add: OnCallNextTick_def)
qed

lemma fold_ActivateUVLoop_replicate:
  "C \<in> set (pending_next_ticks s) \<Longrightarrow> fold ActivateUVLoop (replicate n C) s = s"
  by (induction n) (simp_all add: ActivateUVLoop_pending)

lemma ActivateUVLoop_member: "C \<in> set (pending_next_ticks (ActivateUVLoop C s))"
  by (cases "C \<in> set (pending_next_ticks s)")
     (simp_all add: ActivateUVLoop_pending ActivateUVLoop_fresh)

lemma ActivateUVLoop_distinct:
  "distinct (pending_next_ticks s) \<Longrightarrow> distinct (pending_next_ticks (ActivateUVLoop env s))"
  by (cases "env \<in> set (pending_next_ticks s)")
     (simp_all add: ActivateUVLoop_pending ActivateUVLoop_fresh)

lemma EnvironmentDestroyed_distinct:
  "distinct (pending_next_ticks s) \<Longrightarrow> distinct (pending_next_ticks (EnvironmentDestroyed env s))"
  by (simp add: EnvironmentDestroyed_remove1)

lemma call_distinct:
  "call a (it, s) = Inr (it', s') \<Longrightarrow> distinct (pending_next_ticks s) \<Longrightarrow>
   distinct (pending_next_ticks s')"
  by (cases a) (auto simp: Let_def ActivateUVLoop_distinct EnvironmentDestroyed_distinct
       split: if_splits)

lemma script_calls_distinct:
  "script_calls as (it, s) = Inr (it', s') \<Longrightarrow> distinct (pending_next_ticks s) \<Longrightarrow>
   distinct (pending_next_ticks s')"
proof (induction as arbitrary: it s)
  case Nil
  then show ?case by simp
next
  case (Cons a as)
  from Cons.prems(1) obtain it1 s1 where c: "call a (it, s) = Inr (it1, s1)"
    and rest: "script_calls as (it1, s1) = Inr (it', s')"
    by (auto split: sum.splits)
  from c Cons.prems(2) have "distinct (pending_next_ticks s1)" by (rule call_distinct)
  with rest show ?case by (rule Cons.IH)
qed

lemma visit_distinct:
  "visit cb it s = Inr (it', s') \<Longrightarrow> distinct (pending_next_ticks s) \<Longrightarrow>
   distinct (pending_next_ticks s')"
  using script_calls_distinct
    [of "cb (pending_next_ticks s ! it)" it
        "s\<lparr>scopes := scopes s @ [pending_next_ticks s ! it]\<rparr>" it' s']
  by (simp add: visit_def Let_def)

lemma OnCallNextTick_distinct:
  "OnCallNextTick cb s = Some (Inr s') \<Longrightarrow> distinct (pending_next_ticks s')"
  using OnCallNextTick_result [of cb s s'] by simp

lemma reachable_distinct: "reachable s \<Longrightarrow> distinct (pending_next_ticks s)"
proof (induction rule: reachable.induct)
  case constructed
  show ?case by (simp add: initial_def)
next
  case (activate s env)
  then show ?case by (simp add: ActivateUVLoop_distinct)
next
  case (destroyed s env)
  then show ?case by (simp add: EnvironmentDestroyed_distinct)
next
  case (scope s it cb it' s')
  then show ?case by (simp add: visit_distinct)
next
  case (wake s cb s')
  then show ?case by (simp add: OnCallNextTick_distinct)
qed

section \<open>The claims about the dispatcher\<close>

text \<open>
  C1. When \<^verbatim>\<open>OnCallNextTick\<close> returns, \<^verbatim>\<open>pending_next_ticks_\<close> is empty, and
  the environments that were pending at entry and that no script unregisters during the
  drain have been visited exactly once each, in the order of the list at entry, which is
  the order in which they were appended. When no script unregisters at all, the first
  scopes opened by the call are exactly those of the list at entry, in order; the call
  then returns whenever the scripts register finitely many environments between them, and
  with scripts that make no call it opens exactly the scopes of the list at entry. The
  list at entry holds no environment twice, as in every reachable state.
\<close>

theorem OnCallNextTick_visits_each_kept_pending_once:
  assumes "distinct (pending_next_ticks s)"
  shows "OnCallNextTick quiet s =
           Some (Inr (s\<lparr>pending_next_ticks := [], scopes := scopes s @ pending_next_ticks s\<rparr>))
       \<and> ((\<forall>e c. Destroy c \<notin> set (cb e)) \<and> finite {c. \<exists>e. Activate c \<in> set (cb e)} \<longrightarrow>
            (\<exists>s'. OnCallNextTick cb s = Some (Inr s')))
       \<and> (\<forall>s'. OnCallNextTick cb s = Some (Inr s') \<longrightarrow>
             pending_next_ticks s' = []
           \<and> filter (\<lambda>c. c \<in> set (pending_next_ticks s) \<and> (\<forall>e. Destroy c \<notin> set (cb e)))
                 (visited s s')
               = filter (\<lambda>c. \<forall>e. Destroy c \<notin> set (cb e)) (pending_next_ticks s)
           \<and> (\<forall>c \<in> set (pending_next_ticks s).
                 (\<forall>e. Destroy c \<notin> set (cb e)) \<longrightarrow> count_list (visited s s') c = 1)
           \<and> ((\<forall>e c. Destroy c \<notin> set (cb e)) \<longrightarrow>
                 take (length (pending_next_ticks s)) (visited s s') = pending_next_ticks s))"
proof (intro conjI allI impI ballI)
  show "OnCallNextTick quiet s =
           Some (Inr (s\<lparr>pending_next_ticks := [], scopes := scopes s @ pending_next_ticks s\<rparr>))"
    by (rule OnCallNextTick_quiet)
next
  assume "(\<forall>e c. Destroy c \<notin> set (cb e)) \<and> finite {c. \<exists>e. Activate c \<in> set (cb e)}"
  then show "\<exists>s'. OnCallNextTick cb s = Some (Inr s')" by (simp add: OnCallNextTick_returns)
next
  fix s' assume r: "OnCallNextTick cb s = Some (Inr s')"
  let ?P = "pending_next_ticks s"
  let ?k = "\<lambda>c. \<forall>e. Destroy c \<notin> set (cb e)"
  let ?V = "visited s s'"
  from OnCallNextTick_result [OF r] show "pending_next_ticks s' = []" by blast
  have nd: "\<forall>e c. Destroy c \<in> set (cb e) \<longrightarrow> \<not> ?k c" by blast
  from OnCallNextTick_result [OF r, of ?k] nd obtain X where
    x: "filter ?k ?V = filter ?k ?P @ X" and nx: "\<forall>x \<in> set X. x \<notin> set ?P" by blast
  have "filter (\<lambda>c. c \<in> set ?P \<and> ?k c) ?V = filter (\<lambda>c. c \<in> set ?P) (filter ?k ?V)"
    by (simp add: conj_commute)
  also have "\<dots> = filter (\<lambda>c. c \<in> set ?P) (filter ?k ?P) @ filter (\<lambda>c. c \<in> set ?P) X"
    using x by simp
  also have "filter (\<lambda>c. c \<in> set ?P) X = []" using nx by (simp add: filter_empty_conv)
  also have "filter (\<lambda>c. c \<in> set ?P) (filter ?k ?P) = filter ?k ?P"
    by (rule filter_True) simp
  finally show eq: "filter (\<lambda>c. c \<in> set ?P \<and> ?k c) ?V = filter ?k ?P" by simp
  show "count_list ?V c = 1" if c: "c \<in> set ?P" and k: "\<forall>e. Destroy c \<notin> set (cb e)" for c
  proof -
    from c k have "count_list ?V c = count_list (filter (\<lambda>c. c \<in> set ?P \<and> ?k c) ?V) c"
      by (simp add: count_list_filter)
    also have "\<dots> = count_list (filter ?k ?P) c" by (simp only: eq)
    also from k have "\<dots> = count_list ?P c" by (simp add: count_list_filter)
    also from assms c have "\<dots> = 1" by (rule count_list_distinct)
    finally show ?thesis .
  qed
  show "take (length ?P) ?V = ?P" if no: "\<forall>e c. Destroy c \<notin> set (cb e)"
  proof -
    from no have "filter ?k ?V = ?V" "filter ?k ?P = ?P" by simp_all
    with x have "?V = ?P @ X" by simp
    then show ?thesis by simp
  qed
qed

theorem OnCallNextTick_visits_each_kept_pending_once_witness:
  "distinct (pending_next_ticks
      \<lparr>pending_next_ticks = [CHR ''A'', CHR ''B'', CHR ''C''], async_sends = 3, scopes = []\<rparr>)
   \<and> OnCallNextTick (unregisters (CHR ''A'') [CHR ''B''])
        \<lparr>pending_next_ticks = [CHR ''A'', CHR ''B'', CHR ''C''], async_sends = 3, scopes = []\<rparr>
      = Some (Inr \<lparr>pending_next_ticks = [], async_sends = 3, scopes = [CHR ''A'', CHR ''C'']\<rparr>)
   \<and> (\<forall>e. Destroy (CHR ''C'') \<notin> set (unregisters (CHR ''A'') [CHR ''B''] e))
   \<and> count_list (visited
        \<lparr>pending_next_ticks = [CHR ''A'', CHR ''B'', CHR ''C''], async_sends = 3, scopes = []\<rparr>
        \<lparr>pending_next_ticks = [], async_sends = 3, scopes = [CHR ''A'', CHR ''C'']\<rparr>)
        (CHR ''C'') = 1
   \<and> OnCallNextTick (registers (CHR ''A'') [CHR ''D'', CHR ''B''])
        \<lparr>pending_next_ticks = [CHR ''A'', CHR ''B'', CHR ''C''], async_sends = 3, scopes = []\<rparr>
      = Some (Inr \<lparr>pending_next_ticks = [], async_sends = 4,
                   scopes = [CHR ''A'', CHR ''B'', CHR ''C'', CHR ''D'']\<rparr>)
   \<and> take (length [CHR ''A'', CHR ''B'', CHR ''C'']) (visited
        \<lparr>pending_next_ticks = [CHR ''A'', CHR ''B'', CHR ''C''], async_sends = 3, scopes = []\<rparr>
        \<lparr>pending_next_ticks = [], async_sends = 4,
          scopes = [CHR ''A'', CHR ''B'', CHR ''C'', CHR ''D'']\<rparr>)
      = [CHR ''A'', CHR ''B'', CHR ''C'']"
proof -
  let ?s = "\<lparr>pending_next_ticks = [CHR ''A'', CHR ''B'', CHR ''C''], async_sends = 3, scopes = []\<rparr>"
  let ?u = "\<lparr>pending_next_ticks = [], async_sends = 3, scopes = [CHR ''A'', CHR ''C'']\<rparr>"
  let ?r = "\<lparr>pending_next_ticks = [], async_sends = 4,
             scopes = [CHR ''A'', CHR ''B'', CHR ''C'', CHR ''D'']\<rparr>"
  let ?cu = "unregisters (CHR ''A'') [CHR ''B'']"
  let ?cr = "registers (CHR ''A'') [CHR ''D'', CHR ''B'']"
  have d: "distinct (pending_next_ticks ?s)" by simp
  have ru: "OnCallNextTick ?cu ?s = Some (Inr ?u)"
    by (simp add: OnCallNextTick_def drain.simps visit_def EnvironmentDestroyed_def
          ActivateUVLoop_def unregisters_def erase_def Let_def)
  have rr: "OnCallNextTick ?cr ?s = Some (Inr ?r)"
    by (simp add: OnCallNextTick_def drain.simps visit_def EnvironmentDestroyed_def
          ActivateUVLoop_def registers_def erase_def Let_def)
  have kc: "\<forall>e. Destroy (CHR ''C'') \<notin> set (?cu e)" by (simp add: unregisters_Destroy)
  have cm: "CHR ''C'' \<in> set (pending_next_ticks ?s)" by simp
  from OnCallNextTick_visits_each_kept_pending_once [OF d, of ?cu] ru cm kc
  have 1: "count_list (visited ?s ?u) (CHR ''C'') = 1" by blast
  have nd: "\<forall>e c. Destroy c \<notin> set (?cr e)" by (simp add: registers_no_Destroy)
  from OnCallNextTick_visits_each_kept_pending_once [OF d, of ?cr] rr nd
  have "take (length (pending_next_ticks ?s)) (visited ?s ?r) = pending_next_ticks ?s" by blast
  then have 2: "take (length [CHR ''A'', CHR ''B'', CHR ''C'']) (visited ?s ?r)
      = [CHR ''A'', CHR ''B'', CHR ''C'']" by simp
  from d ru kc 1 rr 2 show ?thesis by blast
qed

text \<open>
  As stated for every environment pending at entry, C1 fails on the code: with \<open>A\<close>
  and \<open>B\<close> pending and a script that brings about \<^verbatim>\<open>EnvironmentDestroyed(B)\<close> in the
  scope of \<open>A\<close>, the node of \<open>B\<close> is erased ahead of the iterator, the loop ends after
  \<open>A\<close>, and \<open>B\<close>, pending at entry, is never visited.
\<close>

theorem unregistered_during_drain_counterexample:
  "OnCallNextTick (unregisters (CHR ''A'') [CHR ''B''])
     \<lparr>pending_next_ticks = [CHR ''A'', CHR ''B''], async_sends = 2, scopes = []\<rparr>
   = Some (Inr \<lparr>pending_next_ticks = [], async_sends = 2, scopes = [CHR ''A'']\<rparr>)"
  by (simp add: OnCallNextTick_def drain.simps visit_def EnvironmentDestroyed_def
        unregisters_def erase_def Let_def)

text \<open>
  C2. A call of \<^verbatim>\<open>ActivateUVLoop\<close> for an environment \<open>C\<close> that is not pending
  appends \<open>C\<close> and calls \<^verbatim>\<open>uv_async_send\<close> once; a call for an environment that
  is pending changes nothing and sends nothing. So after any positive number of calls for
  \<open>C\<close> in a row, \<open>C\<close> is in the list exactly once and one signal was sent.
\<close>

theorem ActivateUVLoop_appends_and_signals_once:
  "(C \<notin> set (pending_next_ticks s) \<longrightarrow>
      ActivateUVLoop C s =
        s\<lparr>pending_next_ticks := pending_next_ticks s @ [C], async_sends := Suc (async_sends s)\<rparr>
    \<and> fold ActivateUVLoop (replicate (Suc n) C) s =
        s\<lparr>pending_next_ticks := pending_next_ticks s @ [C], async_sends := Suc (async_sends s)\<rparr>
    \<and> count_list (pending_next_ticks (fold ActivateUVLoop (replicate (Suc n) C) s)) C = 1)
   \<and> (C \<in> set (pending_next_ticks t) \<longrightarrow>
      ActivateUVLoop C t = t \<and> fold ActivateUVLoop (replicate n C) t = t)"
proof (intro conjI impI)
  assume fresh: "C \<notin> set (pending_next_ticks s)"
  let ?s1 = "s\<lparr>pending_next_ticks := pending_next_ticks s @ [C],
               async_sends := Suc (async_sends s)\<rparr>"
  from fresh show 1: "ActivateUVLoop C s = ?s1" by (rule ActivateUVLoop_fresh)
  have "fold ActivateUVLoop (replicate n C) ?s1 = ?s1"
    by (rule fold_ActivateUVLoop_replicate) simp
  with 1 show 2: "fold ActivateUVLoop (replicate (Suc n) C) s = ?s1" by simp
  from fresh have "count_list (pending_next_ticks s @ [C]) C = 1" by simp
  with 2 show "count_list (pending_next_ticks (fold ActivateUVLoop (replicate (Suc n) C) s)) C = 1"
    by simp
next
  assume "C \<in> set (pending_next_ticks t)"
  then show "ActivateUVLoop C t = t" by (rule ActivateUVLoop_pending)
next
  assume "C \<in> set (pending_next_ticks t)"
  then show "fold ActivateUVLoop (replicate n C) t = t" by (rule fold_ActivateUVLoop_replicate)
qed

theorem ActivateUVLoop_appends_and_signals_once_witness:
  "CHR ''B'' \<notin> set (pending_next_ticks
      \<lparr>pending_next_ticks = [CHR ''A''], async_sends = 1, scopes = []\<rparr>)
   \<and> CHR ''B'' \<in> set (pending_next_ticks
      \<lparr>pending_next_ticks = [CHR ''A'', CHR ''B''], async_sends = 2, scopes = []\<rparr>)
   \<and> fold ActivateUVLoop (replicate 3 (CHR ''B''))
        \<lparr>pending_next_ticks = [CHR ''A''], async_sends = 1, scopes = []\<rparr>
      = \<lparr>pending_next_ticks = [CHR ''A'', CHR ''B''], async_sends = 2, scopes = []\<rparr>
   \<and> ActivateUVLoop (CHR ''B'')
        \<lparr>pending_next_ticks = [CHR ''A'', CHR ''B''], async_sends = 2, scopes = []\<rparr>
      = \<lparr>pending_next_ticks = [CHR ''A'', CHR ''B''], async_sends = 2, scopes = []\<rparr>"
  using ActivateUVLoop_appends_and_signals_once
    [of "CHR ''B''" "\<lparr>pending_next_ticks = [CHR ''A''], async_sends = 1, scopes = []\<rparr>" 2
        "\<lparr>pending_next_ticks = [CHR ''A'', CHR ''B''], async_sends = 2, scopes = []\<rparr>"]
  by (simp add: eval_nat_numeral)

text \<open>
  C3. Let \<^verbatim>\<open>ActivateUVLoop\<close> be called for \<open>C\<close> while the loop of
  \<^verbatim>\<open>OnCallNextTick\<close> is at position \<open>it\<close>, from the script of the environment
  visited there (after the calls \<open>pre\<close> of that script, in the state \<open>s1\<close> with the
  iterator at \<open>it1\<close>), let no script unregister \<open>C\<close>, and let the loop return. If
  \<open>C\<close> is in the list at that moment, the call changes nothing and sends nothing; if it
  is not, the call appends \<open>C\<close> and sends one signal. If \<open>C\<close> is then at or before
  the iterator (already visited, or being visited), no scope is opened for \<open>C\<close> in the
  rest of the drain: the request is dropped. Otherwise (\<open>C\<close> waits further on in the
  list, or was just appended) the rest of the same drain opens the scope of \<open>C\<close> exactly
  once. In no case is anything carried over: the call of \<^verbatim>\<open>OnCallNextTick\<close> returns
  the state of the loop with the list cleared, and the next wake, with nothing registered
  in between, visits nothing.
\<close>

theorem reentrant_registration_same_drain:
  assumes dist: "distinct (pending_next_ticks s)"
    and lt: "it < length (pending_next_ticks s)"
    and script: "cb (pending_next_ticks s ! it) = pre @ Activate C # post"
    and moment: "script_calls pre (it, s\<lparr>scopes := scopes s @ [pending_next_ticks s ! it]\<rparr>)
                   = Inr (it1, s1)"
    and kept: "\<forall>e. Destroy C \<notin> set (cb e)"
    and ret: "drain cb it s = Some (Inr d)"
  shows "(C \<in> set (pending_next_ticks s1) \<longrightarrow> ActivateUVLoop C s1 = s1)
       \<and> (C \<notin> set (pending_next_ticks s1) \<longrightarrow>
            ActivateUVLoop C s1 =
              s1\<lparr>pending_next_ticks := pending_next_ticks s1 @ [C],
                 async_sends := Suc (async_sends s1)\<rparr>)
       \<and> (C \<in> set (take (Suc it1) (pending_next_ticks s1)) \<longrightarrow> C \<notin> set (tl (visited s d)))
       \<and> (C \<notin> set (take (Suc it1) (pending_next_ticks s1)) \<longrightarrow>
            count_list (tl (visited s d)) C = 1)
       \<and> (it = 0 \<longrightarrow> OnCallNextTick cb s = Some (Inr (d\<lparr>pending_next_ticks := []\<rparr>)))
       \<and> OnCallNextTick quiet (d\<lparr>pending_next_ticks := []\<rparr>)
            = Some (Inr (d\<lparr>pending_next_ticks := []\<rparr>))"
proof -
  let ?e = "pending_next_ticks s ! it"
  let ?s0 = "s\<lparr>scopes := scopes s @ [?e]\<rparr>"
  let ?s2 = "ActivateUVLoop C s1"
  let ?k = "\<lambda>c. \<forall>e. Destroy c \<notin> set (cb e)"
  have nd: "\<forall>e c. Destroy c \<in> set (cb e) \<longrightarrow> \<not> ?k c" by blast
  from lt have lt0: "it < length (pending_next_ticks ?s0)" by simp
  from dist have dist0: "distinct (pending_next_ticks ?s0)" by simp
  note pre = script_calls_keeps [OF moment lt0, of ?k]
  from pre have lt1: "it1 < length (pending_next_ticks s1)"
    and sc1: "scopes s1 = scopes s @ [?e]"
    and dist1: "distinct (pending_next_ticks s1)" using dist0 by simp_all
  have c2: "call (Activate C) (it1, s1) = Inr (it1, ?s2)" by simp
  note mid = call_keeps [OF c2 lt1, of ?k]
  from mid have lt2: "it1 < length (pending_next_ticks ?s2)"
    and sc2: "scopes ?s2 = scopes s1"
    and dist2: "distinct (pending_next_ticks ?s2)"
    and tk2: "filter ?k (take (Suc it1) (pending_next_ticks ?s2))
                = filter ?k (take (Suc it1) (pending_next_ticks s1))"
    using dist1 by simp_all
  have "visit cb it s = script_calls post (it1, ?s2)"
    by (simp add: visit_def Let_def script script_calls_append moment)
  with ret lt obtain it' s' where post: "script_calls post (it1, ?s2) = Inr (it', s')"
    and rest: "drain cb (Suc it') s' = Some (Inr d)"
    by (subst (asm) drain.simps) (auto split: sum.splits)
  from script have "\<forall>c. Destroy c \<in> set post \<longrightarrow> \<not> ?k c" by (metis in_set_conv_decomp list.set_intros(2) set_append Un_iff)
  with script_calls_keeps [OF post lt2, of ?k] dist2 obtain X where
    lt': "it' < length (pending_next_ticks s')"
    and sc': "scopes s' = scopes ?s2"
    and dist': "distinct (pending_next_ticks s')"
    and tk': "filter ?k (take (Suc it') (pending_next_ticks s'))
                = filter ?k (take (Suc it1) (pending_next_ticks ?s2))"
    and x': "filter ?k (pending_next_ticks s') = filter ?k (pending_next_ticks ?s2) @ X"
    by blast
  from lt' have le': "Suc it' \<le> length (pending_next_ticks s')" by simp
  from drain_result [OF rest, of d ?k] le' nd dist' obtain V Y where
    scd: "scopes d = scopes s' @ V"
    and distd: "distinct (pending_next_ticks d)"
    and fd: "filter ?k (pending_next_ticks d)
               = filter ?k (take (Suc it') (pending_next_ticks s')) @ filter ?k V"
    and xd: "filter ?k (pending_next_ticks d) = filter ?k (pending_next_ticks s') @ Y"
    by blast
  from scd sc' sc2 sc1 have "visited s d = ?e # V" by (simp add: visited_def)
  then have tl: "tl (visited s d) = V" by simp
  from fd tk' tk2 have split: "filter ?k (pending_next_ticks d)
      = filter ?k (take (Suc it1) (pending_next_ticks s1)) @ filter ?k V" by simp
  from distd have "distinct (filter ?k (pending_next_ticks d))" by simp
  with split have dsp: "distinct (filter ?k (take (Suc it1) (pending_next_ticks s1)) @ filter ?k V)"
    by simp
  have 3: "C \<notin> set (tl (visited s d))" if "C \<in> set (take (Suc it1) (pending_next_ticks s1))"
  proof -
    from that kept have "C \<in> set (filter ?k (take (Suc it1) (pending_next_ticks s1)))" by simp
    with dsp have "C \<notin> set (filter ?k V)" by auto
    with kept tl show ?thesis by simp
  qed
  have 4: "count_list (tl (visited s d)) C = 1"
    if "C \<notin> set (take (Suc it1) (pending_next_ticks s1))"
  proof -
    have "C \<in> set (pending_next_ticks ?s2)" by (rule ActivateUVLoop_member)
    with kept have "C \<in> set (filter ?k (pending_next_ticks ?s2))" by simp
    with x' have "C \<in> set (filter ?k (pending_next_ticks s'))" by simp
    with xd have "C \<in> set (filter ?k (pending_next_ticks d))" by simp
    with split that have "C \<in> set (filter ?k V)" by auto
    moreover from dsp have "distinct (filter ?k V)" by simp
    ultimately have "count_list (filter ?k V) C = 1" by (simp add: count_list_distinct)
    with kept tl show ?thesis by (simp add: count_list_filter)
  qed
  have 5: "OnCallNextTick cb s = Some (Inr (d\<lparr>pending_next_ticks := []\<rparr>))" if "it = 0"
    using that ret by (simp add: OnCallNextTick_def)
  have 6: "OnCallNextTick quiet (d\<lparr>pending_next_ticks := []\<rparr>)
            = Some (Inr (d\<lparr>pending_next_ticks := []\<rparr>))"
    by (rule OnCallNextTick_empty) simp
  from 3 4 5 6 show ?thesis
    by (simp add: ActivateUVLoop_pending ActivateUVLoop_fresh)
qed

theorem reentrant_registration_same_drain_witness:
  "distinct (pending_next_ticks
      \<lparr>pending_next_ticks = [CHR ''A'', CHR ''B''], async_sends = 2, scopes = [CHR ''A'']\<rparr>)
   \<and> 1 < length (pending_next_ticks
      \<lparr>pending_next_ticks = [CHR ''A'', CHR ''B''], async_sends = 2, scopes = [CHR ''A'']\<rparr>)
   \<and> registers (CHR ''B'') [CHR ''A''] (CHR ''B'') = [] @ Activate (CHR ''A'') # []
   \<and> script_calls [] (1,
        \<lparr>pending_next_ticks = [CHR ''A'', CHR ''B''], async_sends = 2,
          scopes = [CHR ''A'', CHR ''B'']\<rparr>)
      = Inr (1, \<lparr>pending_next_ticks = [CHR ''A'', CHR ''B''], async_sends = 2,
                 scopes = [CHR ''A'', CHR ''B'']\<rparr>)
   \<and> (\<forall>e. Destroy (CHR ''A'') \<notin> set (registers (CHR ''B'') [CHR ''A''] e))
   \<and> drain (registers (CHR ''B'') [CHR ''A'']) 1
        \<lparr>pending_next_ticks = [CHR ''A'', CHR ''B''], async_sends = 2, scopes = [CHR ''A'']\<rparr>
      = Some (Inr \<lparr>pending_next_ticks = [CHR ''A'', CHR ''B''], async_sends = 2,
                   scopes = [CHR ''A'', CHR ''B'']\<rparr>)
   \<and> ActivateUVLoop (CHR ''A'')
        \<lparr>pending_next_ticks = [CHR ''A'', CHR ''B''], async_sends = 2,
          scopes = [CHR ''A'', CHR ''B'']\<rparr>
      = \<lparr>pending_next_ticks = [CHR ''A'', CHR ''B''], async_sends = 2,
          scopes = [CHR ''A'', CHR ''B'']\<rparr>
   \<and> CHR ''A'' \<notin> set (tl (visited
        \<lparr>pending_next_ticks = [CHR ''A'', CHR ''B''], async_sends = 2, scopes = [CHR ''A'']\<rparr>
        \<lparr>pending_next_ticks = [CHR ''A'', CHR ''B''], async_sends = 2,
          scopes = [CHR ''A'', CHR ''B'']\<rparr>))
   \<and> drain (registers (CHR ''A'') [CHR ''B'']) 0
        \<lparr>pending_next_ticks = [CHR ''A''], async_sends = 1, scopes = []\<rparr>
      = Some (Inr \<lparr>pending_next_ticks = [CHR ''A'', CHR ''B''], async_sends = 2,
                   scopes = [CHR ''A'', CHR ''B'']\<rparr>)
   \<and> ActivateUVLoop (CHR ''B'')
        \<lparr>pending_next_ticks = [CHR ''A''], async_sends = 1, scopes = [CHR ''A'']\<rparr>
      = \<lparr>pending_next_ticks = [CHR ''A'', CHR ''B''], async_sends = 2, scopes = [CHR ''A'']\<rparr>
   \<and> count_list (tl (visited
        \<lparr>pending_next_ticks = [CHR ''A''], async_sends = 1, scopes = []\<rparr>
        \<lparr>pending_next_ticks = [CHR ''A'', CHR ''B''], async_sends = 2,
          scopes = [CHR ''A'', CHR ''B'']\<rparr>)) (CHR ''B'') = 1"
proof -
  let ?d = "\<lparr>pending_next_ticks = [CHR ''A'', CHR ''B''], async_sends = 2,
             scopes = [CHR ''A'', CHR ''B'']\<rparr>"
  \<comment> \<open>the request for \<open>A\<close>, made in the scope of \<open>B\<close> after \<open>A\<close> was visited, is dropped\<close>
  let ?s = "\<lparr>pending_next_ticks = [CHR ''A'', CHR ''B''], async_sends = 2, scopes = [CHR ''A'']\<rparr>"
  let ?cb = "registers (CHR ''B'') [CHR ''A'']"
  have h1: "distinct (pending_next_ticks ?s)" by simp
  have h2: "1 < length (pending_next_ticks ?s)" by simp
  have h3: "?cb (pending_next_ticks ?s ! 1) = [] @ Activate (CHR ''A'') # []"
    by (simp add: registers_def)
  have h4: "script_calls [] (1, ?s\<lparr>scopes := scopes ?s @ [pending_next_ticks ?s ! 1]\<rparr>)
      = Inr (1, ?d)" by simp
  have h5: "\<forall>e. Destroy (CHR ''A'') \<notin> set (?cb e)" by (simp add: registers_no_Destroy)
  have h6: "drain ?cb 1 ?s = Some (Inr ?d)"
    by (simp add: drain.simps visit_def ActivateUVLoop_def registers_def Let_def)
  note dropped = reentrant_registration_same_drain [OF h1 h2 h3 h4 h5 h6]
  from dropped have a1: "ActivateUVLoop (CHR ''A'') ?d = ?d" by simp
  from dropped have a2: "CHR ''A'' \<notin> set (tl (visited ?s ?d))" by simp
  \<comment> \<open>the request for \<open>B\<close>, made in the scope of \<open>A\<close>, is served in the same drain\<close>
  let ?t = "\<lparr>pending_next_ticks = [CHR ''A''], async_sends = 1, scopes = []\<rparr>"
  let ?t1 = "\<lparr>pending_next_ticks = [CHR ''A''], async_sends = 1, scopes = [CHR ''A'']\<rparr>"
  let ?cr = "registers (CHR ''A'') [CHR ''B'']"
  have g1: "distinct (pending_next_ticks ?t)" by simp
  have g2: "0 < length (pending_next_ticks ?t)" by simp
  have g3: "?cr (pending_next_ticks ?t ! 0) = [] @ Activate (CHR ''B'') # []"
    by (simp add: registers_def)
  have g4: "script_calls [] (0, ?t\<lparr>scopes := scopes ?t @ [pending_next_ticks ?t ! 0]\<rparr>)
      = Inr (0, ?t1)" by simp
  have g5: "\<forall>e. Destroy (CHR ''B'') \<notin> set (?cr e)" by (simp add: registers_no_Destroy)
  have g6: "drain ?cr 0 ?t = Some (Inr ?d)"
    by (simp add: drain.simps visit_def ActivateUVLoop_def registers_def Let_def)
  note served = reentrant_registration_same_drain [OF g1 g2 g3 g4 g5 g6]
  from served have b1: "ActivateUVLoop (CHR ''B'') ?t1
      = \<lparr>pending_next_ticks = [CHR ''A'', CHR ''B''], async_sends = 2, scopes = [CHR ''A'']\<rparr>"
    by (simp add: eval_nat_numeral)
  from served have b2: "count_list (tl (visited ?t ?d)) (CHR ''B'') = 1" by simp
  have h3': "?cb (CHR ''B'') = [] @ Activate (CHR ''A'') # []" by (simp add: registers_def)
  have h4': "script_calls [] (1, ?d) = Inr (1, ?d)" by simp
  from h1 h2 h3' h4' h5 h6 a1 a2 g6 b1 b2 show ?thesis by blast
qed

text \<open>
  The statement that such a \<open>C\<close> waits for the next cycle and is not lost fails on the
  code. With \<open>A\<close> pending and a script that registers \<open>B\<close> in the scope of \<open>A\<close>, the
  same drain opens the scope of \<open>B\<close> and leaves nothing pending. With a script that
  registers \<open>A\<close> itself in the scope of \<open>A\<close>, nothing is appended and nothing is sent,
  the list is cleared, and the next wake visits nothing.
\<close>

theorem reentrant_registration_counterexample:
  "OnCallNextTick (registers (CHR ''A'') [CHR ''B''])
     \<lparr>pending_next_ticks = [CHR ''A''], async_sends = 1, scopes = []\<rparr>
     = Some (Inr \<lparr>pending_next_ticks = [], async_sends = 2, scopes = [CHR ''A'', CHR ''B'']\<rparr>)
   \<and> OnCallNextTick (registers (CHR ''A'') [CHR ''A''])
     \<lparr>pending_next_ticks = [CHR ''A''], async_sends = 1, scopes = []\<rparr>
     = Some (Inr \<lparr>pending_next_ticks = [], async_sends = 1, scopes = [CHR ''A'']\<rparr>)
   \<and> OnCallNextTick quiet
     \<lparr>pending_next_ticks = [], async_sends = 1, scopes = [CHR ''A'']\<rparr>
     = Some (Inr \<lparr>pending_next_ticks = [], async_sends = 1, scopes = [CHR ''A'']\<rparr>)"
  by (simp add: OnCallNextTick_def drain.simps visit_def ActivateUVLoop_def registers_def Let_def)

text \<open>
  C4. In every reachable state, also in the middle of a drain, no environment is in
  \<^verbatim>\<open>pending_next_ticks_\<close> more than once, and each operation
  (\<^verbatim>\<open>ActivateUVLoop\<close>, \<^verbatim>\<open>EnvironmentDestroyed\<close>, one turn of the loop with the
  calls of its script, \<^verbatim>\<open>OnCallNextTick\<close>) keeps a list without duplicates free of
  duplicates.
\<close>

theorem pending_at_most_once:
  "(reachable s \<longrightarrow> (\<forall>c. count_list (pending_next_ticks s) c \<le> 1))
   \<and> (distinct (pending_next_ticks t) \<longrightarrow>
        distinct (pending_next_ticks (ActivateUVLoop env t))
      \<and> distinct (pending_next_ticks (EnvironmentDestroyed env t))
      \<and> (\<forall>it it' t'. visit cb it t = Inr (it', t') \<longrightarrow> distinct (pending_next_ticks t'))
      \<and> (\<forall>t'. OnCallNextTick cb t = Some (Inr t') \<longrightarrow> distinct (pending_next_ticks t')))"
proof (intro conjI impI allI)
  fix c assume "reachable s"
  then have d: "distinct (pending_next_ticks s)" by (rule reachable_distinct)
  show "count_list (pending_next_ticks s) c \<le> 1"
  proof (cases "c \<in> set (pending_next_ticks s)")
    case True
    with d show ?thesis by (simp add: count_list_distinct)
  next
    case False
    then show ?thesis by (simp add: count_notin)
  qed
next
  fix it it' t' assume "distinct (pending_next_ticks t)" "visit cb it t = Inr (it', t')"
  then show "distinct (pending_next_ticks t')" by (simp add: visit_distinct)
qed (simp_all add: ActivateUVLoop_distinct EnvironmentDestroyed_distinct OnCallNextTick_distinct)

theorem pending_at_most_once_witness:
  "reachable (ActivateUVLoop (CHR ''A'') (ActivateUVLoop (CHR ''B'') (ActivateUVLoop (CHR ''A'') initial)))
   \<and> pending_next_ticks
        (ActivateUVLoop (CHR ''A'') (ActivateUVLoop (CHR ''B'') (ActivateUVLoop (CHR ''A'') initial)))
      = [CHR ''A'', CHR ''B'']
   \<and> count_list (pending_next_ticks
        (ActivateUVLoop (CHR ''A'') (ActivateUVLoop (CHR ''B'') (ActivateUVLoop (CHR ''A'') initial))))
        (CHR ''A'') \<le> 1
   \<and> distinct (pending_next_ticks
        \<lparr>pending_next_ticks = [CHR ''A'', CHR ''B''], async_sends = 2, scopes = []\<rparr>)
   \<and> distinct (pending_next_ticks (EnvironmentDestroyed (CHR ''A'')
        \<lparr>pending_next_ticks = [CHR ''A'', CHR ''B''], async_sends = 2, scopes = []\<rparr>))
   \<and> OnCallNextTick quiet
        \<lparr>pending_next_ticks = [CHR ''A'', CHR ''B''], async_sends = 2, scopes = []\<rparr>
      = Some (Inr \<lparr>pending_next_ticks = [], async_sends = 2, scopes = [CHR ''A'', CHR ''B'']\<rparr>)
   \<and> distinct (pending_next_ticks
        \<lparr>pending_next_ticks = [], async_sends = 2, scopes = [CHR ''A'', CHR ''B'']\<rparr>)"
proof -
  let ?s = "ActivateUVLoop (CHR ''A'') (ActivateUVLoop (CHR ''B'') (ActivateUVLoop (CHR ''A'') initial))"
  let ?t = "\<lparr>pending_next_ticks = [CHR ''A'', CHR ''B''], async_sends = 2, scopes = []\<rparr>"
  let ?t' = "\<lparr>pending_next_ticks = [], async_sends = 2, scopes = [CHR ''A'', CHR ''B'']\<rparr>"
  have r: "reachable ?s" by (intro reachable.activate reachable.constructed)
  have p: "pending_next_ticks ?s = [CHR ''A'', CHR ''B'']"
    by (simp add: ActivateUVLoop_def initial_def)
  have d: "distinct (pending_next_ticks ?t)" by simp
  have run: "OnCallNextTick quiet ?t = Some (Inr ?t')"
    by (simp add: OnCallNextTick_def drain.simps visit_def quiet_def Let_def)
  note inv = pending_at_most_once [of ?s ?t "CHR ''A''" quiet]
  from inv r have 1: "count_list (pending_next_ticks ?s) (CHR ''A'') \<le> 1" by blast
  from inv d have 2: "distinct (pending_next_ticks (EnvironmentDestroyed (CHR ''A'') ?t))" by blast
  from inv d run have 3: "distinct (pending_next_ticks ?t')" by blast
  from r p 1 d 2 run 3 show ?thesis by blast
qed

text \<open>
  C5. \<^verbatim>\<open>EnvironmentDestroyed\<close> for a pending environment \<open>C\<close> erases it from the
  list (the list holds it once, as in every reachable state), keeps the others in their
  order, and the following \<^verbatim>\<open>OnCallNextTick\<close> opens no scope for \<open>C\<close>, as long as
  no script registers the destroyed environment again during that drain.
\<close>

theorem EnvironmentDestroyed_removes_pending:
  assumes "distinct (pending_next_ticks s)" and "C \<in> set (pending_next_ticks s)"
  shows "EnvironmentDestroyed C s = s\<lparr>pending_next_ticks := remove1 C (pending_next_ticks s)\<rparr>
       \<and> C \<notin> set (pending_next_ticks (EnvironmentDestroyed C s))
       \<and> set (pending_next_ticks (EnvironmentDestroyed C s)) = set (pending_next_ticks s) - {C}
       \<and> OnCallNextTick quiet (EnvironmentDestroyed C s) =
           Some (Inr (s\<lparr>pending_next_ticks := [],
                        scopes := scopes s @ remove1 C (pending_next_ticks s)\<rparr>))
       \<and> (\<forall>s'. (\<forall>e. Activate C \<notin> set (cb e)) \<longrightarrow>
               OnCallNextTick cb (EnvironmentDestroyed C s) = Some (Inr s') \<longrightarrow>
               C \<notin> set (visited (EnvironmentDestroyed C s) s'))"
proof (intro conjI allI impI)
  let ?d = "EnvironmentDestroyed C s"
  show 1: "?d = s\<lparr>pending_next_ticks := remove1 C (pending_next_ticks s)\<rparr>"
    by (rule EnvironmentDestroyed_remove1)
  from assms(1) show 2: "C \<notin> set (pending_next_ticks ?d)" by (simp add: 1)
  from assms(1) show "set (pending_next_ticks ?d) = set (pending_next_ticks s) - {C}"
    by (simp add: 1)
  show "OnCallNextTick quiet ?d =
           Some (Inr (s\<lparr>pending_next_ticks := [],
                        scopes := scopes s @ remove1 C (pending_next_ticks s)\<rparr>))"
    by (simp add: OnCallNextTick_quiet 1)
  fix s' assume nc: "\<forall>e. Activate C \<notin> set (cb e)" and r: "OnCallNextTick cb ?d = Some (Inr s')"
  from OnCallNextTick_result [OF r] have
    "set (visited ?d s') \<subseteq> set (pending_next_ticks ?d) \<union> {c. \<exists>e. Activate c \<in> set (cb e)}"
    by blast
  with 2 nc show "C \<notin> set (visited ?d s')" by blast
qed

theorem EnvironmentDestroyed_removes_pending_witness:
  "distinct (pending_next_ticks
      \<lparr>pending_next_ticks = [CHR ''A'', CHR ''B'', CHR ''C''], async_sends = 3, scopes = []\<rparr>)
   \<and> CHR ''B'' \<in> set (pending_next_ticks
      \<lparr>pending_next_ticks = [CHR ''A'', CHR ''B'', CHR ''C''], async_sends = 3, scopes = []\<rparr>)
   \<and> EnvironmentDestroyed (CHR ''B'')
        \<lparr>pending_next_ticks = [CHR ''A'', CHR ''B'', CHR ''C''], async_sends = 3, scopes = []\<rparr>
      = \<lparr>pending_next_ticks = [CHR ''A'', CHR ''C''], async_sends = 3, scopes = []\<rparr>
   \<and> OnCallNextTick quiet
        \<lparr>pending_next_ticks = [CHR ''A'', CHR ''C''], async_sends = 3, scopes = []\<rparr>
      = Some (Inr \<lparr>pending_next_ticks = [], async_sends = 3, scopes = [CHR ''A'', CHR ''C'']\<rparr>)
   \<and> CHR ''B'' \<notin> set (visited
        \<lparr>pending_next_ticks = [CHR ''A'', CHR ''C''], async_sends = 3, scopes = []\<rparr>
        \<lparr>pending_next_ticks = [], async_sends = 3, scopes = [CHR ''A'', CHR ''C'']\<rparr>)"
proof -
  let ?s = "\<lparr>pending_next_ticks = [CHR ''A'', CHR ''B'', CHR ''C''], async_sends = 3, scopes = []\<rparr>"
  let ?d = "\<lparr>pending_next_ticks = [CHR ''A'', CHR ''C''], async_sends = 3, scopes = []\<rparr>"
  let ?s' = "\<lparr>pending_next_ticks = [], async_sends = 3, scopes = [CHR ''A'', CHR ''C'']\<rparr>"
  have d: "distinct (pending_next_ticks ?s)" by simp
  have m: "CHR ''B'' \<in> set (pending_next_ticks ?s)" by simp
  note th = EnvironmentDestroyed_removes_pending [OF d m, of quiet]
  from th have e: "EnvironmentDestroyed (CHR ''B'') ?s = ?d" by simp
  from th e have run: "OnCallNextTick quiet ?d = Some (Inr ?s')" by simp
  have q: "\<forall>e. Activate (CHR ''B'') \<notin> set (quiet e)" by (simp add: quiet_def)
  from th q run e have "CHR ''B'' \<notin> set (visited ?d ?s')" by simp
  with d m e run show ?thesis by blast
qed

text \<open>
  C6. \<^verbatim>\<open>EnvironmentDestroyed\<close> for an environment that is not pending changes
  nothing: the state, and so the list with its order, is the same.
\<close>

theorem EnvironmentDestroyed_not_pending_noop:
  "C \<notin> set (pending_next_ticks s) \<Longrightarrow> EnvironmentDestroyed C s = s"
  by (simp add: EnvironmentDestroyed_def std_find_end_iff)

theorem EnvironmentDestroyed_not_pending_noop_witness:
  "CHR ''C'' \<notin> set (pending_next_ticks
      \<lparr>pending_next_ticks = [CHR ''A'', CHR ''B''], async_sends = 2, scopes = [CHR ''C'']\<rparr>)
   \<and> EnvironmentDestroyed (CHR ''C'')
        \<lparr>pending_next_ticks = [CHR ''A'', CHR ''B''], async_sends = 2, scopes = [CHR ''C'']\<rparr>
      = \<lparr>pending_next_ticks = [CHR ''A'', CHR ''B''], async_sends = 2, scopes = [CHR ''C'']\<rparr>"
proof -
  let ?s = "\<lparr>pending_next_ticks = [CHR ''A'', CHR ''B''], async_sends = 2, scopes = [CHR ''C'']\<rparr>"
  have n: "CHR ''C'' \<notin> set (pending_next_ticks ?s)" by simp
  from n EnvironmentDestroyed_not_pending_noop [OF n] show ?thesis by blast
qed

text \<open>
  C7. From an empty list and for \<open>A \<noteq> B\<close>: registering \<open>A\<close>, \<open>B\<close>, \<open>A\<close> gives the
  list \<open>[A, B]\<close> (two signals); \<^verbatim>\<open>OnCallNextTick\<close>, with scripts that make no call,
  opens the scope of \<open>A\<close>, then that of \<open>B\<close>, and empties the list; registering
  \<open>A\<close> afterwards gives the list \<open>[A]\<close> and a third signal.
\<close>

theorem register_A_B_A_then_wake:
  assumes "A \<noteq> B" and "pending_next_ticks s = []"
  shows "ActivateUVLoop A (ActivateUVLoop B (ActivateUVLoop A s)) =
           s\<lparr>pending_next_ticks := [A, B], async_sends := Suc (Suc (async_sends s))\<rparr>
       \<and> OnCallNextTick quiet (ActivateUVLoop A (ActivateUVLoop B (ActivateUVLoop A s))) =
           Some (Inr (s\<lparr>pending_next_ticks := [], async_sends := Suc (Suc (async_sends s)),
                        scopes := scopes s @ [A, B]\<rparr>))
       \<and> ActivateUVLoop A (s\<lparr>pending_next_ticks := [], async_sends := Suc (Suc (async_sends s)),
                   scopes := scopes s @ [A, B]\<rparr>) =
           s\<lparr>pending_next_ticks := [A], async_sends := Suc (Suc (Suc (async_sends s))),
             scopes := scopes s @ [A, B]\<rparr>"
  using assms by (simp add: ActivateUVLoop_def OnCallNextTick_quiet)

theorem register_A_B_A_then_wake_witness:
  "CHR ''A'' \<noteq> CHR ''B'' \<and> pending_next_ticks (initial :: char bindings) = []
   \<and> ActivateUVLoop (CHR ''A'')
        (ActivateUVLoop (CHR ''B'') (ActivateUVLoop (CHR ''A'') initial))
      = \<lparr>pending_next_ticks = [CHR ''A'', CHR ''B''], async_sends = 2, scopes = []\<rparr>
   \<and> OnCallNextTick quiet (ActivateUVLoop (CHR ''A'')
        (ActivateUVLoop (CHR ''B'') (ActivateUVLoop (CHR ''A'') initial)))
      = Some (Inr \<lparr>pending_next_ticks = [], async_sends = 2, scopes = [CHR ''A'', CHR ''B'']\<rparr>)
   \<and> ActivateUVLoop (CHR ''A'')
        \<lparr>pending_next_ticks = [], async_sends = 2, scopes = [CHR ''A'', CHR ''B'']\<rparr>
      = \<lparr>pending_next_ticks = [CHR ''A''], async_sends = 3, scopes = [CHR ''A'', CHR ''B'']\<rparr>"
proof -
  let ?i = "initial :: char bindings"
  let ?s3 = "ActivateUVLoop (CHR ''A'') (ActivateUVLoop (CHR ''B'') (ActivateUVLoop (CHR ''A'') ?i))"
  let ?w = "\<lparr>pending_next_ticks = [], async_sends = 2, scopes = [CHR ''A'', CHR ''B'']\<rparr>"
  have ne: "CHR ''A'' \<noteq> CHR ''B''" by simp
  have em: "pending_next_ticks ?i = []" by (simp add: initial_def)
  note th = register_A_B_A_then_wake [OF ne em]
  have w: "?i\<lparr>pending_next_ticks := [], async_sends := Suc (Suc (async_sends ?i)),
              scopes := scopes ?i @ [CHR ''A'', CHR ''B'']\<rparr> = ?w"
    by (simp add: initial_def eval_nat_numeral)
  from th have "?s3 = ?i\<lparr>pending_next_ticks := [CHR ''A'', CHR ''B''],
                         async_sends := Suc (Suc (async_sends ?i))\<rparr>" by blast
  also have "\<dots> = \<lparr>pending_next_ticks = [CHR ''A'', CHR ''B''], async_sends = 2, scopes = []\<rparr>"
    by (simp add: initial_def eval_nat_numeral)
  finally have a: "?s3 = \<lparr>pending_next_ticks = [CHR ''A'', CHR ''B''], async_sends = 2, scopes = []\<rparr>" .
  from th have "OnCallNextTick quiet ?s3 =
      Some (Inr (?i\<lparr>pending_next_ticks := [], async_sends := Suc (Suc (async_sends ?i)),
              scopes := scopes ?i @ [CHR ''A'', CHR ''B'']\<rparr>))" by blast
  then have b: "OnCallNextTick quiet ?s3 = Some (Inr ?w)" unfolding w .
  from th have "ActivateUVLoop (CHR ''A'')
      (?i\<lparr>pending_next_ticks := [], async_sends := Suc (Suc (async_sends ?i)),
              scopes := scopes ?i @ [CHR ''A'', CHR ''B'']\<rparr>) =
      ?i\<lparr>pending_next_ticks := [CHR ''A''], async_sends := Suc (Suc (Suc (async_sends ?i))),
             scopes := scopes ?i @ [CHR ''A'', CHR ''B'']\<rparr>" by blast
  then have "ActivateUVLoop (CHR ''A'') ?w =
      ?i\<lparr>pending_next_ticks := [CHR ''A''], async_sends := Suc (Suc (Suc (async_sends ?i))),
             scopes := scopes ?i @ [CHR ''A'', CHR ''B'']\<rparr>" unfolding w .
  also have "\<dots> = \<lparr>pending_next_ticks = [CHR ''A''], async_sends = 3,
                     scopes = [CHR ''A'', CHR ''B'']\<rparr>"
    by (simp add: initial_def eval_nat_numeral)
  finally have c: "ActivateUVLoop (CHR ''A'') ?w =
      \<lparr>pending_next_ticks = [CHR ''A''], async_sends = 3, scopes = [CHR ''A'', CHR ''B'']\<rparr>" .
  from ne em a b c show ?thesis by blast
qed

text \<open>
  C8. \<^verbatim>\<open>OnCallNextTick\<close> on an empty list returns, opens no scope and leaves the
  state as it was, whatever the scripts would do.
\<close>

theorem OnCallNextTick_empty_noop:
  "pending_next_ticks s = [] \<Longrightarrow> OnCallNextTick cb s = Some (Inr s) \<and> visited s s = []"
  by (simp add: OnCallNextTick_empty visited_def)

theorem OnCallNextTick_empty_noop_witness:
  "pending_next_ticks (EnvironmentDestroyed (CHR ''A'') (ActivateUVLoop (CHR ''A'') initial)) = []
   \<and> OnCallNextTick (registers (CHR ''A'') [CHR ''B''])
        (EnvironmentDestroyed (CHR ''A'') (ActivateUVLoop (CHR ''A'') initial))
      = Some (Inr \<lparr>pending_next_ticks = [], async_sends = 1, scopes = []\<rparr>)"
proof -
  let ?s = "EnvironmentDestroyed (CHR ''A'') (ActivateUVLoop (CHR ''A'') initial)"
  have v: "?s = \<lparr>pending_next_ticks = [], async_sends = 1, scopes = []\<rparr>"
    by (simp add: EnvironmentDestroyed_def ActivateUVLoop_def initial_def erase_def)
  then have e: "pending_next_ticks ?s = []" by simp
  from OnCallNextTick_empty_noop [OF e, of "registers (CHR ''A'') [CHR ''B'']"] e v
  show ?thesis by simp
qed

section \<open>The claims about the shell bindings\<close>

lemma GetNext_exhausted:
  "length (info args) \<le> next_arg args \<Longrightarrow>
   GetNext conv out args = (False, out, args\<lparr>insufficient_arguments := True\<rparr>)"
  by (simp add: GetNext_def)

lemma GetNext_next_arg:
  "next_arg args < length (info args) \<Longrightarrow>
   next_arg (snd (snd (GetNext conv out args))) = Suc (next_arg args)
   \<and> info (snd (snd (GetNext conv out args))) = info args"
  by (simp add: GetNext_def Let_def split: option.splits)

text \<open>
  C9. When at most one argument is left to read (the path, and no second argument),
  the second \<^verbatim>\<open>GetNext\<close> finds nothing and leaves \<^verbatim>\<open>delete_on_fail\<close> at its
  initial value: \<^verbatim>\<open>platform_util::MoveItemToTrash\<close> is called with \<open>False\<close>, and with
  the converted path when the argument converts.
\<close>

theorem MoveItemToTrash_delete_on_fail_default:
  assumes "length (info args) \<le> Suc (next_arg args)"
  shows "snd (MoveItemToTrash_call empty_path to_path to_bool args) = False
       \<and> MoveItemToTrash platform empty_path to_path to_bool args =
           platform (fst (MoveItemToTrash_call empty_path to_path to_bool args)) False
       \<and> (\<forall>p. next_arg args < length (info args) \<longrightarrow>
               to_path (info args ! next_arg args) = Some p \<longrightarrow>
               MoveItemToTrash platform empty_path to_path to_bool args = platform p False)"
proof -
  have call: "snd (MoveItemToTrash_call empty_path to_path to_bool args) = False"
  proof (cases "next_arg args < length (info args)")
    case True
    obtain ok p args1 where g: "GetNext to_path empty_path args = (ok, p, args1)"
      by (cases "GetNext to_path empty_path args") auto
    from GetNext_next_arg [OF True, of to_path empty_path] g
    have "next_arg args1 = Suc (next_arg args)" "info args1 = info args" by simp_all
    with assms have "length (info args1) \<le> next_arg args1" by simp
    then have "GetNext to_bool False args1 = (False, False, args1\<lparr>insufficient_arguments := True\<rparr>)"
      by (rule GetNext_exhausted)
    with g show ?thesis by (simp add: MoveItemToTrash_call_def)
  next
    case False
    then have e: "length (info args) \<le> next_arg args" by simp
    then show ?thesis
      by (simp add: MoveItemToTrash_call_def GetNext_exhausted)
  qed
  then have 2: "MoveItemToTrash platform empty_path to_path to_bool args =
           platform (fst (MoveItemToTrash_call empty_path to_path to_bool args)) False"
    by (cases "MoveItemToTrash_call empty_path to_path to_bool args")
       (simp add: MoveItemToTrash_def)
  have 3: "MoveItemToTrash platform empty_path to_path to_bool args = platform p False"
    if "next_arg args < length (info args)" "to_path (info args ! next_arg args) = Some p" for p
  proof -
    from that have "fst (MoveItemToTrash_call empty_path to_path to_bool args) = p"
      by (simp add: MoveItemToTrash_call_def GetNext_def Let_def split: prod.splits option.splits)
    with 2 show ?thesis by simp
  qed
  from call 2 3 show ?thesis by blast
qed

theorem MoveItemToTrash_delete_on_fail_default_witness:
  "length (info \<lparr>info = [''/tmp/a.txt''], next_arg = 0, insufficient_arguments = False\<rparr>)
     \<le> Suc (next_arg \<lparr>info = [''/tmp/a.txt''], next_arg = 0, insufficient_arguments = False\<rparr>)
   \<and> MoveItemToTrash_call [] Some (\<lambda>v. Some (v \<noteq> []))
        \<lparr>info = [''/tmp/a.txt''], next_arg = 0, insufficient_arguments = False\<rparr>
      = (''/tmp/a.txt'', False)
   \<and> MoveItemToTrash_call [] Some (\<lambda>v. Some (v \<noteq> []))
        \<lparr>info = [''/tmp/a.txt'', ''true''], next_arg = 0, insufficient_arguments = False\<rparr>
      = (''/tmp/a.txt'', True)"
proof -
  let ?args = "\<lparr>info = [''/tmp/a.txt''], next_arg = 0, insufficient_arguments = False\<rparr>"
  let ?b = "\<lambda>v :: string. Some (v \<noteq> [])"
  have h: "length (info ?args) \<le> Suc (next_arg ?args)" by simp
  from MoveItemToTrash_delete_on_fail_default [OF h, of "[]" Some ?b]
  have s: "snd (MoveItemToTrash_call [] Some ?b ?args) = False" by blast
  have f: "fst (MoveItemToTrash_call [] Some ?b ?args) = ''/tmp/a.txt''"
    by (simp add: MoveItemToTrash_call_def GetNext_def)
  from s f have 1: "MoveItemToTrash_call [] Some ?b ?args = (''/tmp/a.txt'', False)"
    by (simp add: prod_eq_iff)
  have 2: "MoveItemToTrash_call [] Some ?b
        \<lparr>info = [''/tmp/a.txt'', ''true''], next_arg = 0, insufficient_arguments = False\<rparr>
      = (''/tmp/a.txt'', True)"
    by (simp add: MoveItemToTrash_call_def GetNext_def)
  from h 1 2 show ?thesis by blast
qed

text \<open>
  C10. On a value that converts to the string \<open>operation\<close>, the converter returns true
  exactly for the empty string, \<^verbatim>\<open>create\<close>, \<^verbatim>\<open>update\<close> and \<^verbatim>\<open>replace\<close>; it
  stores create-always for the first two, update-existing and replace-existing for the
  others, and returns false with \<^verbatim>\<open>*out\<close> untouched on every other string.
\<close>

theorem FromV8_ShortcutOperation:
  assumes "to_string val = Some operation"
  shows "(fst (FromV8 to_string val out) \<longleftrightarrow>
            operation \<in> {'''', ''create'', ''update'', ''replace''})
       \<and> (operation = '''' \<or> operation = ''create'' \<longrightarrow>
            FromV8 to_string val out = (True, SHORTCUT_CREATE_ALWAYS))
       \<and> (operation = ''update'' \<longrightarrow>
            FromV8 to_string val out = (True, SHORTCUT_UPDATE_EXISTING))
       \<and> (operation = ''replace'' \<longrightarrow>
            FromV8 to_string val out = (True, SHORTCUT_REPLACE_EXISTING))
       \<and> (operation \<notin> {'''', ''create'', ''update'', ''replace''} \<longrightarrow>
            FromV8 to_string val out = (False, out))"
  using assms by (simp add: FromV8_def)

theorem FromV8_ShortcutOperation_witness:
  "Some ''update'' = Some ''update''
   \<and> FromV8 Some ''update'' SHORTCUT_CREATE_ALWAYS = (True, SHORTCUT_UPDATE_EXISTING)
   \<and> FromV8 Some ''Update'' SHORTCUT_CREATE_ALWAYS = (False, SHORTCUT_CREATE_ALWAYS)
   \<and> FromV8 Some '''' SHORTCUT_REPLACE_EXISTING = (True, SHORTCUT_CREATE_ALWAYS)"
proof -
  have u: "Some ''update'' = Some ''update''" by simp
  have U: "Some ''Update'' = Some ''Update''" by simp
  have e: "Some '''' = Some ''''" by simp
  from FromV8_ShortcutOperation [of Some "''update''" "''update''" SHORTCUT_CREATE_ALWAYS, OF u]
  have 1: "FromV8 Some ''update'' SHORTCUT_CREATE_ALWAYS = (True, SHORTCUT_UPDATE_EXISTING)"
    by blast
  from FromV8_ShortcutOperation [of Some "''Update''" "''Update''" SHORTCUT_CREATE_ALWAYS, OF U]
  have 2: "FromV8 Some ''Update'' SHORTCUT_CREATE_ALWAYS = (False, SHORTCUT_CREATE_ALWAYS)"
    by simp
  from FromV8_ShortcutOperation [of Some "''''" "''''" SHORTCUT_REPLACE_EXISTING, OF e]
  have 3: "FromV8 Some '''' SHORTCUT_REPLACE_EXISTING = (True, SHORTCUT_CREATE_ALWAYS)"
    by blast
  from u 1 2 3 show ?thesis by blast
qed

end
